theory Spec2Isabelle
  imports Main
begin

section \<open>Errors\<close>

text \<open>
  Every exception the Python can raise is a value.  \<open>InputError\<close> is the
  \<^verbatim>\<open>ValueError(self._input_error(..))\<close> of the automata (the spec's invalid input
  symbol), \<open>ParseError\<close> the \<^verbatim>\<open>ValueError\<close> of the regex parser with its message,
  \<open>OperatorInputTypeError\<close> the error of the operator constructors.  The remaining
  ones are the interpreter's own exceptions.
\<close>

datatype error =
    InputError
  | ParseError string
  | OperatorInputTypeError
  | IndexError
  | TypeError
  | KeyError
  | AttributeError
  | UnboundLocalError
  | RecursionError
  | FormatError

section \<open>The \<epsilon>-NFA (automata/nfa.py)\<close>

text \<open>
  An automaton owns its states; a state is identified by its name.  The states'
  transition tables are kept in one arena: a list of \<open>(source, symbol, target)\<close>.
  A Python set is a list read through \<open>set\<close>.  Symbols are Python strings; the
  characters of a text are the one-character strings.
\<close>

record enfa =
  states :: "string list"
  inputs :: "string list"
  start_state :: string
  accepted_states :: "string list"
  transitions :: "(string \<times> string \<times> string) list"
  epsilon :: string
  current :: "string list"

text \<open>
  Modelled from the spec: \<^verbatim>\<open>State.forward\<close> (automata/state.py is not part of the
  sources): the successor set of a state on a symbol, empty if there is none.
\<close>

definition forward :: "enfa \<Rightarrow> string \<Rightarrow> string \<Rightarrow> string list" where
  "forward A s a = map (\<lambda>(p, b, q). q) (filter (\<lambda>(p, b, q). p = s \<and> b = a) (transitions A))"

text \<open>
  \<^verbatim>\<open>NFA._access\<close>.  The lookup \<^verbatim>\<open>self.states[self._get_alias(end.name)]\<close> fails
  with a \<^verbatim>\<open>KeyError\<close> on a name that is not a state (the alias table of the absent
  automata/fa.py is taken to be the identity).
\<close>

fun add_ends :: "enfa \<Rightarrow> string list \<Rightarrow> string list \<Rightarrow> error + string list" where
  "add_ends A [] old_currents = Inr old_currents"
| "add_ends A (e # res) old_currents =
     (if e \<in> set (states A) then add_ends A res (List.insert e old_currents)
      else Inl KeyError)"

fun access_states :: "enfa \<Rightarrow> string \<Rightarrow> string list \<Rightarrow> string list \<Rightarrow> error + string list" where
  "access_states A v [] old_currents = Inr old_currents"
| "access_states A v (s # ss) old_currents =
     (case add_ends A (forward A s v) old_currents of
        Inl e \<Rightarrow> Inl e
      | Inr oc \<Rightarrow> access_states A v ss oc)"

definition nfa_access :: "enfa \<Rightarrow> string \<Rightarrow> error + enfa" where
  "nfa_access A v =
     (if v \<notin> set (inputs A) then Inl InputError
      else case access_states A v (current A) [] of
             Inl e \<Rightarrow> Inl e
           | Inr oc \<Rightarrow> Inr (A\<lparr>current := oc\<rparr>))"

text \<open>
  \<^verbatim>\<open>EPSILON_NFA.__init__\<close>: the \<epsilon>-symbol joins the inputs.  The constructor of
  the absent base class is taken to store its arguments and to start in the start
  state.
\<close>

definition EPSILON_NFA ::
  "string list \<Rightarrow> string list \<Rightarrow> string \<Rightarrow> string list \<Rightarrow> (string \<times> string \<times> string) list \<Rightarrow> enfa" where
  "EPSILON_NFA sts ins st acc trs =
     \<lparr>states = sts, inputs = List.insert ''$'' ins, start_state = st,
      accepted_states = acc, transitions = trs, epsilon = ''$'', current = [st]\<rparr>"

text \<open>
  \<^verbatim>\<open>EPSILON_NFA._e_closure\<close>, always called with an explicit accumulator.  The
  recursion through the \<^verbatim>\<open>for\<close> loop is written with the loop's remaining
  iterations on a list: \<open>e_closure_loop A pending closure\<close> runs the iterations
  \<open>pending\<close> of the enclosing loops; an iteration whose state is not yet in
  \<open>closure\<close> is the recursive call, which raises on a state that is not in the
  automaton, adds the state, and runs the loop over its \<epsilon>-successors before the
  rest.
\<close>

function e_closure_loop :: "enfa \<Rightarrow> string list \<Rightarrow> string list \<Rightarrow> error + string list" where
  "e_closure_loop A [] closure = Inr closure"
| "e_closure_loop A (eps # pending) closure =
     (if eps \<in> set closure then e_closure_loop A pending closure
      else if eps \<notin> set (states A) then Inl InputError
      else e_closure_loop A (forward A eps (epsilon A) @ pending) (List.insert eps closure))"
  by pat_completeness auto
termination
proof (relation "measures [\<lambda>(A, p, c). card (set (states A) - set c), \<lambda>(A, p, c). length p]")
  show "wf (measures [\<lambda>(A :: enfa, p :: string list, c :: string list). card (set (states A) - set c),
                      \<lambda>(A, p, c). length p])"
    by simp
next
  fix A :: enfa and eps :: string and pending closure :: "string list"
  assume "eps \<in> set closure"
  then show "((A, pending, closure), (A, eps # pending, closure))
      \<in> measures [\<lambda>(A, p, c). card (set (states A) - set c), \<lambda>(A, p, c). length p]"
    by simp
next
  fix A :: enfa and eps :: string and pending closure :: "string list"
  assume a: "eps \<notin> set closure" "\<not> eps \<notin> set (states A)"
  have "set (states A) - set (List.insert eps closure) \<subset> set (states A) - set closure"
    using a by auto
  then have "card (set (states A) - set (List.insert eps closure)) < card (set (states A) - set closure)"
    by (intro psubset_card_mono) auto
  then show "((A, forward A eps (epsilon A) @ pending, List.insert eps closure), (A, eps # pending, closure))
      \<in> measures [\<lambda>(A, p, c). card (set (states A) - set c), \<lambda>(A, p, c). length p]"
    by simp
qed

definition e_closure :: "enfa \<Rightarrow> string \<Rightarrow> string list \<Rightarrow> error + string list" where
  "e_closure A state closure =
     (if state \<notin> set (states A) then Inl InputError
      else e_closure_loop A (forward A state (epsilon A)) (List.insert state closure))"

text \<open>
  \<^verbatim>\<open>EPSILON_NFA._e_closures\<close>: \<open>currents\<close> starts as the set of the given states
  and is the accumulator of every call.
\<close>

fun e_closures_loop :: "enfa \<Rightarrow> string list \<Rightarrow> string list \<Rightarrow> error + string list" where
  "e_closures_loop A [] currents = Inr currents"
| "e_closures_loop A (i # rest) currents =
     (case e_closure A i currents of
        Inl e \<Rightarrow> Inl e
      | Inr c \<Rightarrow> e_closures_loop A rest (List.union currents c))"

definition e_closures :: "enfa \<Rightarrow> string list \<Rightarrow> error + string list" where
  "e_closures A sts = e_closures_loop A sts (remdups sts)"

definition all_closures :: "enfa \<Rightarrow> error + string list" where
  "all_closures A = e_closures A (current A)"

text \<open>\<^verbatim>\<open>EPSILON_NFA._access\<close>.\<close>

definition access :: "enfa \<Rightarrow> string \<Rightarrow> error + enfa" where
  "access A v =
     (case nfa_access A v of
        Inl e \<Rightarrow> Inl e
      | Inr A' \<Rightarrow> (case all_closures A' of
                    Inl e \<Rightarrow> Inl e
                  | Inr c \<Rightarrow> Inr (A'\<lparr>current := c\<rparr>)))"

text \<open>
  Modelled from the spec: \<^verbatim>\<open>reset\<close>, \<^verbatim>\<open>enter\<close> and \<^verbatim>\<open>accepted\<close> of the absent
  automata/fa.py.  \<open>reset\<close> sets the current set to the \<epsilon>-closure of the start
  state, \<open>enter\<close> is the step \<^verbatim>\<open>_access\<close>, and \<open>accepted\<close> holds iff the current set
  meets the accept set.
\<close>

definition reset :: "enfa \<Rightarrow> error + enfa" where
  "reset A =
     (case e_closures A [start_state A] of
        Inl e \<Rightarrow> Inl e
      | Inr c \<Rightarrow> Inr (A\<lparr>current := c\<rparr>))"

definition enter :: "enfa \<Rightarrow> string \<Rightarrow> error + enfa" where
  "enter A v = access A v"

definition accepted :: "enfa \<Rightarrow> bool" where
  "accepted A = (\<exists>s \<in> set (current A). s \<in> set (accepted_states A))"

section \<open>Reference notions for the \<epsilon>-NFA\<close>

text \<open>The \<epsilon>-closure of the spec: the least set containing \<open>S\<close> and closed under \<epsilon>-transitions.\<close>

inductive_set eclose :: "enfa \<Rightarrow> string set \<Rightarrow> string set" for A :: enfa and S :: "string set" where
  base: "s \<in> S \<Longrightarrow> s \<in> eclose A S"
| step: "s \<in> eclose A S \<Longrightarrow> d \<in> set (forward A s (epsilon A)) \<Longrightarrow> d \<in> eclose A S"

definition eps_closed :: "enfa \<Rightarrow> string set \<Rightarrow> bool" where
  "eps_closed A T = (\<forall>s \<in> T. set (forward A s (epsilon A)) \<subseteq> T)"

text \<open>
  Acceptance of a text in full: \<open>reach A p w q\<close> holds when the automaton can move from
  \<open>p\<close> to \<open>q\<close> reading the characters of \<open>w\<close> in order, each along a transition on that
  character, with any number of \<epsilon>-transitions in between.
\<close>

inductive reach :: "enfa \<Rightarrow> string \<Rightarrow> string \<Rightarrow> string \<Rightarrow> bool" for A :: enfa where
  stay: "reach A p [] p"
| eps: "(p, epsilon A, q) \<in> set (transitions A) \<Longrightarrow> reach A q w r \<Longrightarrow> reach A p w r"
| read: "(p, [c], q) \<in> set (transitions A) \<Longrightarrow> reach A q w r \<Longrightarrow> reach A p (c # w) r"

definition accepts :: "enfa \<Rightarrow> string \<Rightarrow> bool" where
  "accepts A w = (\<exists>q \<in> set (accepted_states A). reach A (start_state A) w q)"

text \<open>
  The invariants of the data model: the start state and the accept states are states,
  and every transition stays inside the automaton and reads an input or \<epsilon>.
\<close>

definition wf_enfa :: "enfa \<Rightarrow> bool" where
  "wf_enfa A =
     (start_state A \<in> set (states A) \<and>
      set (accepted_states A) \<subseteq> set (states A) \<and>
      epsilon A \<in> set (inputs A) \<and>
      (\<forall>(p, b, q) \<in> set (transitions A).
          p \<in> set (states A) \<and> q \<in> set (states A) \<and> b \<in> set (inputs A)))"

text \<open>A small automaton with an \<epsilon>-cycle \<open>p \<rightarrow> q \<rightarrow> p\<close>, used to run the definitions.\<close>

definition A_cycle :: enfa where
  "A_cycle = EPSILON_NFA [''p'', ''q'', ''r''] [''a''] ''p'' [''r'']
     [(''p'', ''$'', ''q''), (''q'', ''$'', ''p''), (''q'', ''a'', ''r'')]"

section \<open>The stack automaton (automata/pda.py)\<close>

text \<open>
  The current state of the automaton is one of its states or the failure state
  \<^verbatim>\<open>self.failed_state\<close>, a state object of its own that has no transitions.
\<close>

datatype pstate = PushState string | FailedState

text \<open>
  The transition table \<open>delta\<close> of the states is keyed by the state's name and the
  pair (input symbol, stack top), the \<^verbatim>\<open>InputPack\<close>; an entry holds the next state
  and the sequence to push.  The stack is a list with its top first.
\<close>

record pda =
  pda_current :: pstate
  stack :: "string list"
  empty_symbol :: string
  delta :: "string \<Rightarrow> string \<times> string \<Rightarrow> (pstate \<times> string list) option"

text \<open>
  Modelled from the spec: \<^verbatim>\<open>PushState.clean_forward\<close> (automata/state.py is absent)
  returns the empty set when the state has no transition for the pack and the pack
  (next state, push sequence) otherwise; \<^verbatim>\<open>exclude\<close> (automata/packs.py is absent)
  drops the \<epsilon> placeholders of a push sequence.
\<close>

definition clean_forward :: "pda \<Rightarrow> pstate \<Rightarrow> string \<times> string \<Rightarrow> (pstate \<times> string list) option" where
  "clean_forward P s k = (case s of FailedState \<Rightarrow> None | PushState n \<Rightarrow> delta P n k)"

definition exclude :: "string list \<Rightarrow> string \<Rightarrow> string list" where
  "exclude stk e = filter (\<lambda>x. x \<noteq> e) stk"

text \<open>
  \<^verbatim>\<open>DeterministicPDA._access\<close>.  The result is the automaton after the step and the
  returned flag \<open>go_on\<close>: the driver puts the input symbol back when it is false.
  The operation \<^verbatim>\<open>self.stack += ..\<close> of the absent \<^verbatim>\<open>packs.Stack\<close> is the parameter
  \<open>iadd\<close>, from the popped stack and the sequence to the new stack.
\<close>

definition pda_access ::
  "(string list \<Rightarrow> string list \<Rightarrow> string list) \<Rightarrow> pda \<Rightarrow> string \<Rightarrow> pda \<times> bool" where
  "pda_access iadd P v =
     (case stack P of
        [] \<Rightarrow> (P\<lparr>pda_current := FailedState\<rparr>, True)
      | symbol # rest \<Rightarrow>
          (case clean_forward P (pda_current P) (empty_symbol P, symbol) of
             None \<Rightarrow>
               (case clean_forward P (pda_current P) (v, symbol) of
                  None \<Rightarrow> (P\<lparr>pda_current := FailedState, stack := rest\<rparr>, True)
                | Some (cur, stk) \<Rightarrow>
                    (P\<lparr>pda_current := cur, stack := iadd rest (exclude stk (empty_symbol P))\<rparr>, True))
           | Some (cur, stk) \<Rightarrow>
               (P\<lparr>pda_current := cur, stack := iadd rest (exclude stk (empty_symbol P))\<rparr>, False)))"

text \<open>
  A stack automaton to run the step on: in \<open>q0\<close> with \<open>Z\<close> on top it moves to \<open>q1\<close>
  on no input and pushes \<open>A\<close>; in \<open>q1\<close> with \<open>A\<close> on top it reads \<open>a\<close>.
\<close>

definition P_example :: pda where
  "P_example =
     \<lparr>pda_current = PushState ''q0'', stack = [''Z''], empty_symbol = ''$'',
      delta = (\<lambda>n k.
        if n = ''q0'' \<and> k = (''$'', ''Z'') then Some (PushState ''q1'', [''A'', ''$''])
        else if n = ''q0'' \<and> k = (''a'', ''Z'') then Some (PushState ''q2'', [])
        else if n = ''q1'' \<and> k = (''a'', ''A'') then Some (PushState ''q2'', [''$''])
        else None)\<rparr>"

section \<open>Python lists\<close>

text \<open>
  Indexing and slicing as Python does them: a negative index counts from the end,
  an index out of range raises \<^verbatim>\<open>IndexError\<close>, the bounds of a slice are clamped.
\<close>

definition py_index :: "'a list \<Rightarrow> int \<Rightarrow> error + 'a" where
  "py_index xs i =
     (let n = int (length xs); j = (if i < 0 then i + n else i)
      in if 0 \<le> j \<and> j < n then Inr (xs ! nat j) else Inl IndexError)"

definition py_set_index :: "'a list \<Rightarrow> int \<Rightarrow> 'a \<Rightarrow> error + 'a list" where
  "py_set_index xs i v =
     (let n = int (length xs); j = (if i < 0 then i + n else i)
      in if 0 \<le> j \<and> j < n then Inr (xs[nat j := v]) else Inl IndexError)"

definition slice_bound :: "nat \<Rightarrow> int \<Rightarrow> nat" where
  "slice_bound n i = (if i < 0 then nat (max (i + int n) 0) else min (nat i) n)"

definition slice :: "'a list \<Rightarrow> int \<Rightarrow> int \<Rightarrow> 'a list" where
  "slice xs a b =
     (let lo = slice_bound (length xs) a; hi = slice_bound (length xs) b
      in take (hi - lo) (drop lo xs))"

fun every_second :: "'a list \<Rightarrow> 'a list" where
  "every_second [] = []"
| "every_second [x] = [x]"
| "every_second (x # y # xs) = x # every_second xs"

definition slice_step2 :: "'a list \<Rightarrow> int \<Rightarrow> int \<Rightarrow> 'a list" where
  "slice_step2 xs a b = every_second (slice xs a b)"

definition slice_assign :: "'a list \<Rightarrow> int \<Rightarrow> int \<Rightarrow> 'a list \<Rightarrow> 'a list" where
  "slice_assign xs a b ys =
     (let lo = slice_bound (length xs) a; hi = max lo (slice_bound (length xs) b)
      in take lo xs @ ys @ drop hi xs)"

section \<open>Operator nodes (grammar/operators.py)\<close>

text \<open>
  The items of a group under reduction are Python values: a string (one character of
  the pattern), a nested list, or an operator object.  An operator object holds the
  operands it was built with.
\<close>

datatype item =
    Str string
  | Lst "item list"
  | Single item
  | Collation item item
  | Alternation item item
  | Concatenation item item
  | KleeneStar item
  | KleenePlus item
  | QuestionMark item

datatype kind = KStr | KOperator

fun is_operator :: "item \<Rightarrow> bool" where
  "is_operator (Str s) = False"
| "is_operator (Lst l) = False"
| "is_operator x = True"

fun isinstance :: "item \<Rightarrow> kind \<Rightarrow> bool" where
  "isinstance (Str s) KStr = True"
| "isinstance x KStr = False"
| "isinstance x KOperator = is_operator x"

text \<open>\<^verbatim>\<open>Operator._check_type_err\<close>: an empty set of valid types admits every item.\<close>

definition check_type_err :: "kind list \<Rightarrow> item \<Rightarrow> error + unit" where
  "check_type_err valid_item_types x =
     (if valid_item_types = [] then Inr ()
      else if (\<exists>valid_type \<in> set valid_item_types. isinstance x valid_type) then Inr ()
      else Inl OperatorInputTypeError)"

definition has_kind :: "kind list \<Rightarrow> item \<Rightarrow> bool" where
  "has_kind ks x = (\<exists>k \<in> set ks. isinstance x k)"

text \<open>
  The constructors.  \<^verbatim>\<open>BinaryOperator.__init__\<close> checks the first operand, then the
  last; \<^verbatim>\<open>UnaryOperator.__init__\<close> checks its item.
\<close>

definition new_binary :: "kind list \<Rightarrow> (item \<Rightarrow> item \<Rightarrow> item) \<Rightarrow> item \<Rightarrow> item \<Rightarrow> error + item" where
  "new_binary item_types cls first_item last_item =
     (case check_type_err item_types first_item of
        Inl e \<Rightarrow> Inl e
      | Inr u \<Rightarrow> (case check_type_err item_types last_item of
                    Inl e \<Rightarrow> Inl e
                  | Inr u \<Rightarrow> Inr (cls first_item last_item)))"

definition new_unary :: "kind list \<Rightarrow> (item \<Rightarrow> item) \<Rightarrow> item \<Rightarrow> error + item" where
  "new_unary item_types cls x =
     (case check_type_err item_types x of
        Inl e \<Rightarrow> Inl e
      | Inr u \<Rightarrow> Inr (cls x))"

definition new_Collation :: "item \<Rightarrow> item \<Rightarrow> error + item" where
  "new_Collation first_character ending_character =
     new_binary [KStr] Collation first_character ending_character"

definition new_Alternation :: "item \<Rightarrow> item \<Rightarrow> error + item" where
  "new_Alternation first_item second_item =
     new_binary [KStr, KOperator] Alternation first_item second_item"

definition new_Concatenation :: "item \<Rightarrow> item \<Rightarrow> error + item" where
  "new_Concatenation first_item second_item =
     new_binary [KStr, KOperator] Concatenation first_item second_item"

definition new_KleeneStar :: "item \<Rightarrow> error + item" where
  "new_KleeneStar x = new_unary [KStr, KOperator] KleeneStar x"

definition new_KleenePlus :: "item \<Rightarrow> error + item" where
  "new_KleenePlus x = new_unary [KStr, KOperator] KleenePlus x"

definition new_QuestionMark :: "item \<Rightarrow> error + item" where
  "new_QuestionMark x = new_unary [KStr, KOperator] QuestionMark x"

text \<open>
  Modelled from the spec: the class \<^verbatim>\<open>Single\<close> is not in grammar/operators.py.  The
  spec's \<open>Single(char)\<close> node declares no set of operand kinds here, so it is built
  from any item.
\<close>

definition new_Single :: "item \<Rightarrow> error + item" where
  "new_Single x = new_unary [] Single x"

section \<open>The regex parser (grammar/regular\_expressions.py)\<close>

abbreviation backslash :: char where
  "backslash \<equiv> CHR 0x5C"

subsection \<open>Pass 1: \<^verbatim>\<open>_extract_bracket\<close>\<close>

text \<open>
  The body of the loop over \<^verbatim>\<open>enumerate(text)\<close> for a character that is not an
  escaped parenthesis: the new values of \<^verbatim>\<open>par_count\<close>, \<^verbatim>\<open>lpar_index\<close>,
  \<^verbatim>\<open>rpar_index\<close> and \<^verbatim>\<open>result\<close>.
\<close>

definition step_par_count :: "char \<Rightarrow> int \<Rightarrow> int" where
  "step_par_count c par_count =
     (if c = CHR ''('' then par_count + 1 else if c = CHR '')'' then par_count - 1 else par_count)"

definition step_lpar_index :: "char \<Rightarrow> nat \<Rightarrow> int \<Rightarrow> int" where
  "step_lpar_index c i lpar_index =
     (if c = CHR ''('' \<and> lpar_index = - 1 then int i else lpar_index)"

definition step_rpar_index :: "char \<Rightarrow> nat \<Rightarrow> int \<Rightarrow> int" where
  "step_rpar_index c i rpar_index = (if c = CHR '')'' then int i else rpar_index)"

definition step_result :: "char \<Rightarrow> int \<Rightarrow> item list \<Rightarrow> item list" where
  "step_result c lpar_index result =
     (if c \<noteq> CHR ''('' \<and> c \<noteq> CHR '')'' \<and> \<not> 0 \<le> lpar_index then result @ [Str [c]] else result)"

definition escaped_paren :: "string \<Rightarrow> nat \<Rightarrow> bool" where
  "escaped_paren text i =
     ((text ! i = CHR ''('' \<or> text ! i = CHR '')'') \<and> 0 < i \<and> text ! (i - 1) = backslash)"

function extract_loop ::
  "string \<Rightarrow> nat \<Rightarrow> int \<Rightarrow> int \<Rightarrow> int \<Rightarrow> item list \<Rightarrow> error + item list" where
  "extract_loop text i par_count lpar_index rpar_index result =
     (if length text \<le> i then
        (if par_count \<noteq> 0 then Inl (ParseError ''Unbalanced parentheses.'') else Inr result)
      else if escaped_paren text i then
        extract_loop text (Suc i) par_count lpar_index rpar_index (result @ [Str [text ! i]])
      else if step_par_count (text ! i) par_count = 0
              \<and> 0 \<le> step_lpar_index (text ! i) i lpar_index
              \<and> 0 \<le> step_rpar_index (text ! i) i rpar_index then
        (case extract_loop
                (slice text (step_lpar_index (text ! i) i lpar_index + 1)
                   (step_rpar_index (text ! i) i rpar_index))
                0 0 (- 1) (- 1) [] of
           Inl e \<Rightarrow> Inl e
         | Inr sub \<Rightarrow>
             extract_loop text (Suc i) (step_par_count (text ! i) par_count) (- 1) (- 1)
               (step_result (text ! i) lpar_index result @ [Lst sub]))
      else
        extract_loop text (Suc i) (step_par_count (text ! i) par_count)
          (step_lpar_index (text ! i) i lpar_index) (step_rpar_index (text ! i) i rpar_index)
          (step_result (text ! i) lpar_index result))"
  by pat_completeness auto
termination
proof (relation "measures [\<lambda>(text, i, r). length text, \<lambda>(text, i, r). length text - i]")
  fix t :: string and i :: nat and par_count lpar_index rpar_index :: int and res :: "item list"
  assume b: "\<not> length t \<le> i"
    "step_par_count (t ! i) par_count = 0 \<and>
     0 \<le> step_lpar_index (t ! i) i lpar_index \<and>
     0 \<le> step_rpar_index (t ! i) i rpar_index"
  then have a: "\<not> length t \<le> i" "0 \<le> step_lpar_index (t ! i) i lpar_index" by simp_all
  define L R where "L = step_lpar_index (t ! i) i lpar_index"
    and "R = step_rpar_index (t ! i) i rpar_index"
  have lo: "0 < slice_bound (length t) (L + 1)"
    using a by (cases t) (auto simp: slice_bound_def L_def)
  have "length (slice t (L + 1) R) \<le> length t - slice_bound (length t) (L + 1)"
    by (simp add: slice_def Let_def)
  with lo a(1) have "length (slice t (L + 1) R) < length t" by arith
  then have "length (slice t (step_lpar_index (t ! i) i lpar_index + 1)
            (step_rpar_index (t ! i) i rpar_index)) < length t"
    by (simp add: L_def R_def)
  then show "((slice t (step_lpar_index (t ! i) i lpar_index + 1)
            (step_rpar_index (t ! i) i rpar_index), 0, 0, - 1, - 1, []),
         t, i, par_count, lpar_index, rpar_index, res)
        \<in> measures [\<lambda>(text, i, r). length text, \<lambda>(text, i, r). length text - i]"
    by simp
qed auto

definition extract_bracket :: "string \<Rightarrow> error + item list" where
  "extract_bracket text = extract_loop text 0 0 (- 1) (- 1) []"

subsection \<open>Pass 2: the reductions of a group\<close>

text \<open>
  Each reduction copies the group and walks \<^verbatim>\<open>enumerate(group)\<close>; the loop functions
  take the items still to visit, the index \<open>i\<close> and the loop's variables.
\<close>

fun escape_loop :: "item list \<Rightarrow> int \<Rightarrow> int \<Rightarrow> item list \<Rightarrow> int \<Rightarrow> error + item list" where
  "escape_loop [] i n copied_group compressed = Inr copied_group"
| "escape_loop (x # rest) i n copied_group compressed =
     (if i \<ge> n - compressed then Inr copied_group
      else if x = Str [backslash] then
        (case py_index copied_group (i + 1 - compressed) of
           Inl e \<Rightarrow> Inl e
         | Inr y \<Rightarrow>
             (case new_Single y of
                Inl e \<Rightarrow> Inl e
              | Inr single \<Rightarrow>
                  escape_loop rest (i + 1) n
                    (slice_assign copied_group (i - compressed) (i + 2 - compressed) [single])
                    (compressed + 1)))
      else escape_loop rest (i + 1) n copied_group compressed)"

definition escape_characters :: "item list \<Rightarrow> error + item list" where
  "escape_characters grp = escape_loop grp 0 (int (length grp)) grp 0"

text \<open>\<^verbatim>\<open>Collation(*args)\<close>: a call with other than two arguments is a \<^verbatim>\<open>TypeError\<close>.\<close>

fun call_Collation :: "item list \<Rightarrow> error + item" where
  "call_Collation [a, b] = new_Collation a b"
| "call_Collation args = Inl TypeError"

definition missing_dash :: string where
  "missing_dash = ''Collation parsing failed, missing '' @ [CHR 0x22, CHR ''-'', CHR 0x22] @ '' character''"

fun collate_loop ::
  "item list \<Rightarrow> int \<Rightarrow> item list \<Rightarrow> int \<Rightarrow> int \<Rightarrow> int \<Rightarrow> error + item list" where
  "collate_loop [] i copied_groups lpar_index dash_index compressed = Inr copied_groups"
| "collate_loop (x # rest) i copied_groups lpar_index dash_index compressed =
     (if x = Str ''['' then collate_loop rest (i + 1) copied_groups i dash_index compressed
      else if x = Str ''-'' then collate_loop rest (i + 1) copied_groups lpar_index i compressed
      else if x = Str '']'' then
        (if dash_index \<noteq> - 1 then
           (case call_Collation
                   (slice_step2 copied_groups (lpar_index + 1 - compressed) (i - compressed)) of
              Inl e \<Rightarrow> Inl e
            | Inr collation \<Rightarrow>
                collate_loop rest (i + 1)
                  (slice_assign copied_groups (lpar_index - compressed) (i + 1 - compressed)
                     [collation])
                  lpar_index dash_index (compressed + 4))
         else Inl (ParseError missing_dash))
      else collate_loop rest (i + 1) copied_groups lpar_index dash_index compressed)"

definition collate :: "item list \<Rightarrow> error + item list" where
  "collate grp = collate_loop grp 0 grp (- 1) (- 1) 0"

text \<open>
  The reductions below call \<^verbatim>\<open>self._process\<close> on an item that is a list; the call is
  the parameter \<open>proc\<close>.
\<close>

fun sublists_loop ::
  "(item list \<Rightarrow> error + item) \<Rightarrow> item list \<Rightarrow> int \<Rightarrow> item list \<Rightarrow> error + item list" where
  "sublists_loop proc [] i copied_groups = Inr copied_groups"
| "sublists_loop proc (Lst l # rest) i copied_groups =
     (case proc l of
        Inl e \<Rightarrow> Inl e
      | Inr x \<Rightarrow>
          (case py_set_index copied_groups i x of
             Inl e \<Rightarrow> Inl e
           | Inr c \<Rightarrow> sublists_loop proc rest (i + 1) c))"
| "sublists_loop proc (x # rest) i copied_groups = sublists_loop proc rest (i + 1) copied_groups"

definition process_sublists :: "(item list \<Rightarrow> error + item) \<Rightarrow> item list \<Rightarrow> error + item list" where
  "process_sublists proc grp = sublists_loop proc grp 0 grp"

text \<open>The table \<^verbatim>\<open>unary_operators\<close>: the classes for \<open>+\<close>, \<open>?\<close>, \<open>*\<close> and the empty string.\<close>

definition unary_operators :: "item \<Rightarrow> (item \<Rightarrow> error + item) option" where
  "unary_operators x =
     (if x = Str ''+'' then Some new_KleenePlus
      else if x = Str ''?'' then Some new_QuestionMark
      else if x = Str ''*'' then Some new_KleeneStar
      else if x = Str '''' then Some new_Single
      else None)"

text \<open>The table \<^verbatim>\<open>binary_operators\<close>: the classes for \<open>|\<close> and the empty string.\<close>

definition binary_operators :: "item \<Rightarrow> (item \<Rightarrow> item \<Rightarrow> error + item) option" where
  "binary_operators x =
     (if x = Str ''|'' then Some new_Alternation
      else if x = Str '''' then Some new_Concatenation
      else None)"

fun unary_loop ::
  "(item list \<Rightarrow> error + item) \<Rightarrow> item list \<Rightarrow> int \<Rightarrow> item list \<Rightarrow> int \<Rightarrow> error + item list" where
  "unary_loop proc [] i copied_groups compressed = Inr copied_groups"
| "unary_loop proc (Lst l # rest) i copied_groups compressed =
     (case proc l of
        Inl e \<Rightarrow> Inl e
      | Inr x \<Rightarrow>
          (case py_set_index copied_groups (i - compressed) x of
             Inl e \<Rightarrow> Inl e
           | Inr c \<Rightarrow> unary_loop proc rest (i + 1) c compressed))"
| "unary_loop proc (x # rest) i copied_groups compressed =
     (case unary_operators x of
        None \<Rightarrow> unary_loop proc rest (i + 1) copied_groups compressed
      | Some cls \<Rightarrow>
          (case py_index copied_groups (i - 1 - compressed) of
             Inl e \<Rightarrow> Inl e
           | Inr operand \<Rightarrow>
               (case cls operand of
                  Inl e \<Rightarrow> Inl e
                | Inr node \<Rightarrow>
                    unary_loop proc rest (i + 1)
                      (slice_assign copied_groups (i - 1 - compressed) (i + 1 - compressed) [node])
                      (compressed + 1))))"

definition to_unary_operators :: "(item list \<Rightarrow> error + item) \<Rightarrow> item list \<Rightarrow> error + item list" where
  "to_unary_operators proc grp = unary_loop proc grp 0 grp 0"

text \<open>
  In \<^verbatim>\<open>_concatenate\<close>, \<^verbatim>\<open>next_char\<close> is the next item of the group or the empty
  string; looking a list up in the table \<^verbatim>\<open>binary_operators\<close> is a \<^verbatim>\<open>TypeError\<close>
  (a list is not hashable).
\<close>

fun concatenate_loop ::
  "(item list \<Rightarrow> error + item) \<Rightarrow> item list \<Rightarrow> int \<Rightarrow> item list \<Rightarrow> int \<Rightarrow> error + item list" where
  "concatenate_loop proc [] i copied_groups compressed = Inr copied_groups"
| "concatenate_loop proc (Lst l # rest) i copied_groups compressed =
     (case proc l of
        Inl e \<Rightarrow> Inl e
      | Inr processed \<Rightarrow>
          (case py_set_index copied_groups (i - compressed) processed of
             Inl e \<Rightarrow> Inl e
           | Inr c \<Rightarrow> concatenate_loop proc rest (i + 1) c compressed))"
| "concatenate_loop proc (x # rest) i copied_groups compressed =
     (let next_char = (case rest of [] \<Rightarrow> Str '''' | y # ys \<Rightarrow> y) in
      if binary_operators x \<noteq> None then concatenate_loop proc rest (i + 1) copied_groups compressed
      else if (case next_char of Lst l \<Rightarrow> True | _ \<Rightarrow> False) then Inl TypeError
      else if binary_operators next_char \<noteq> None then
        concatenate_loop proc rest (i + 1) copied_groups compressed
      else
        (case py_index copied_groups (i - compressed) of
           Inl e \<Rightarrow> Inl e
         | Inr a \<Rightarrow>
             (case py_index copied_groups (i + 1 - compressed) of
                Inl e \<Rightarrow> Inl e
              | Inr b \<Rightarrow>
                  (case new_Concatenation a b of
                     Inl e \<Rightarrow> Inl e
                   | Inr node \<Rightarrow>
                       concatenate_loop proc rest (i + 1)
                         (slice_assign copied_groups (i - compressed) (i + 2 - compressed) [node])
                         (compressed + 1)))))"

definition concatenate :: "(item list \<Rightarrow> error + item) \<Rightarrow> item list \<Rightarrow> error + item list" where
  "concatenate proc grp = concatenate_loop proc grp 0 grp 0"

fun alternate_loop ::
  "(item list \<Rightarrow> error + item) \<Rightarrow> item list \<Rightarrow> int \<Rightarrow> item list \<Rightarrow> int \<Rightarrow> error + item list" where
  "alternate_loop proc [] i copied_groups compressed = Inr copied_groups"
| "alternate_loop proc (Lst l # rest) i copied_groups compressed =
     (case proc l of
        Inl e \<Rightarrow> Inl e
      | Inr processed \<Rightarrow>
          (case py_set_index copied_groups (i - compressed) processed of
             Inl e \<Rightarrow> Inl e
           | Inr c \<Rightarrow> alternate_loop proc rest (i + 1) c compressed))"
| "alternate_loop proc (x # rest) i copied_groups compressed =
     (case binary_operators x of
        None \<Rightarrow> alternate_loop proc rest (i + 1) copied_groups compressed
      | Some cls \<Rightarrow>
          (case py_index copied_groups (i - 1 - compressed) of
             Inl e \<Rightarrow> Inl e
           | Inr a \<Rightarrow>
               (case py_index copied_groups (i + 1 - compressed) of
                  Inl e \<Rightarrow> Inl e
                | Inr b \<Rightarrow>
                    (case cls a b of
                       Inl e \<Rightarrow> Inl e
                     | Inr node \<Rightarrow>
                         alternate_loop proc rest (i + 1)
                           (slice_assign copied_groups (i - 1 - compressed) (i + 2 - compressed)
                              [node])
                           (compressed + 2)))))"

definition alternate :: "(item list \<Rightarrow> error + item) \<Rightarrow> item list \<Rightarrow> error + item list" where
  "alternate proc grp = alternate_loop proc grp 0 grp 0"

fun clean :: "item list \<Rightarrow> error + item list" where
  "clean [] = Inr []"
| "clean (Str s # rest) =
     (case new_Single (Str s) of
        Inl e \<Rightarrow> Inl e
      | Inr single \<Rightarrow> (case clean rest of Inl e \<Rightarrow> Inl e | Inr r \<Rightarrow> Inr (single # r)))"
| "clean (x # rest) = (case clean rest of Inl e \<Rightarrow> Inl e | Inr r \<Rightarrow> Inr (x # r))"

text \<open>
  \<^verbatim>\<open>RegEx._process\<close>.  The recursion into nested lists is bounded by the first
  argument, the number of nested calls that are left; running out of them is Python's
  \<^verbatim>\<open>RecursionError\<close>.
\<close>

fun process :: "nat \<Rightarrow> item list \<Rightarrow> error + item" where
  "process 0 grp = Inl RecursionError"
| "process (Suc depth) grp =
     (case escape_characters grp of Inl e \<Rightarrow> Inl e | Inr g1 \<Rightarrow>
      case collate g1 of Inl e \<Rightarrow> Inl e | Inr g2 \<Rightarrow>
      case process_sublists (process depth) g2 of Inl e \<Rightarrow> Inl e | Inr g3 \<Rightarrow>
      case to_unary_operators (process depth) g3 of Inl e \<Rightarrow> Inl e | Inr g4 \<Rightarrow>
      case concatenate (process depth) g4 of Inl e \<Rightarrow> Inl e | Inr g5 \<Rightarrow>
      case alternate (process depth) g5 of Inl e \<Rightarrow> Inl e | Inr g6 \<Rightarrow>
      case clean g6 of Inl e \<Rightarrow> Inl e | Inr g7 \<Rightarrow>
      if length g7 > 1 then Inl (ParseError ''Parsing failed.'')
      else py_index g7 0)"

text \<open>The depth of nesting of a group, and the parse of a pattern into its operator tree.\<close>

fun nesting :: "item \<Rightarrow> nat" where
  "nesting (Lst l) = Suc (fold max (map nesting l) 0)"
| "nesting x = 0"

definition parse :: "string \<Rightarrow> error + item" where
  "parse text =
     (case extract_bracket text of
        Inl e \<Rightarrow> Inl e
      | Inr groups \<Rightarrow> process (Suc (nesting (Lst groups))) groups)"

section \<open>The text form of an automaton\<close>

abbreviation newline :: char where
  "newline \<equiv> CHR 0x0A"

text \<open>
  Modelled from the spec: \<^verbatim>\<open>EpsilonNFA.factory\<close> with the
  \<^verbatim>\<open>StandardFormatGenerator\<close> (form/generators.py is absent).  The text is a
  newline-separated block: the state names, the input symbols, the accept-state
  names (each comma-separated), the start state, and transition lines
  \<^verbatim>\<open>src,symbol->dst\<close>.  Whitespace around commas and names is ignored.  A text that
  does not describe an automaton of the data model (a start, accept or transition
  state that is not listed, a transition on a symbol that is neither an input nor \<epsilon>)
  is rejected.
\<close>

fun split_on :: "char \<Rightarrow> string \<Rightarrow> string list" where
  "split_on sep [] = [[]]"
| "split_on sep (c # cs) =
     (if c = sep then [] # split_on sep cs
      else (case split_on sep cs of [] \<Rightarrow> [[c]] | w # ws \<Rightarrow> (c # w) # ws))"

definition is_space :: "char \<Rightarrow> bool" where
  "is_space c = (c = CHR '' '' \<or> c = CHR 0x09 \<or> c = CHR 0x0A \<or> c = CHR 0x0B \<or> c = CHR 0x0C \<or> c = CHR 0x0D)"

definition strip :: "string \<Rightarrow> string" where
  "strip s = rev (dropWhile is_space (rev (dropWhile is_space s)))"

text \<open>
  A character that the text form can carry as a symbol: neither the comma that
  separates the entries of a line nor whitespace, which is stripped.
\<close>

definition plain :: "char \<Rightarrow> bool" where
  "plain c = (c \<noteq> CHR '','' \<and> \<not> is_space c)"

definition names :: "string \<Rightarrow> string list" where
  "names line = remdups (filter (\<lambda>w. w \<noteq> []) (map strip (split_on (CHR '','') line)))"

fun split_arrow :: "string \<Rightarrow> (string \<times> string) option" where
  "split_arrow (c # d # cs) =
     (if c = CHR ''-'' \<and> d = CHR ''>'' then Some ([], cs)
      else (case split_arrow (d # cs) of None \<Rightarrow> None | Some (l, r) \<Rightarrow> Some (c # l, r)))"
| "split_arrow cs = None"

definition parse_transition :: "string \<Rightarrow> error + (string \<times> string \<times> string)" where
  "parse_transition line =
     (case split_arrow line of
        None \<Rightarrow> Inl FormatError
      | Some (l, r) \<Rightarrow>
          (case map strip (split_on (CHR '','') l) of
             [src, symb] \<Rightarrow> Inr (src, symb, strip r)
           | _ \<Rightarrow> Inl FormatError))"

fun parse_transitions :: "string list \<Rightarrow> error + (string \<times> string \<times> string) list" where
  "parse_transitions [] = Inr []"
| "parse_transitions (line # rest) =
     (if strip line = [] then parse_transitions rest
      else (case parse_transition line of
              Inl e \<Rightarrow> Inl e
            | Inr t \<Rightarrow> (case parse_transitions rest of
                          Inl e \<Rightarrow> Inl e
                        | Inr ts \<Rightarrow> Inr (t # ts))))"

definition factory :: "string \<Rightarrow> error + enfa" where
  "factory text =
     (case split_on newline text of
        l1 # l2 # l3 # l4 # rest \<Rightarrow>
          (case parse_transitions rest of
             Inl e \<Rightarrow> Inl e
           | Inr trs \<Rightarrow>
               (let A = EPSILON_NFA (names l1) (names l2) (strip l4) (names l3) trs
                in if wf_enfa A then Inr A else Inl FormatError))
      | _ \<Rightarrow> Inl FormatError)"

section \<open>Composition of automata\<close>

text \<open>
  Modelled from the spec: the operations \<^verbatim>\<open>+\<close> (union), \<^verbatim>\<open>*\<close> (concatenation),
  \<^verbatim>\<open>kleene_operator\<close> and \<^verbatim>\<open>deepcopy\<close> of \<^verbatim>\<open>EpsilonNFA\<close> are not in
  automata/nfa.py.  A state of the right-hand automaton whose name collides with a
  left-hand state receives a fresh name drawn from a counter scoped to the result;
  the fresh start and accept states of union and Kleene closure draw from the same
  counter.  The fresh names are \<open>q0\<close>, \<open>q1\<close>, ...: the counter skips the names in use.
\<close>

definition digit_char :: "nat \<Rightarrow> char" where
  "digit_char d = char_of (48 + d)"

fun digits :: "nat \<Rightarrow> string" where
  "digits n = (if n < 10 then [digit_char n] else digits (n div 10) @ [digit_char (n mod 10)])"

definition mk_name :: "nat \<Rightarrow> string" where
  "mk_name n = CHR ''q'' # digits n"

fun fresh_from :: "string list \<Rightarrow> nat \<Rightarrow> nat \<Rightarrow> nat" where
  "fresh_from taken 0 n = n"
| "fresh_from taken (Suc tries) n =
     (if mk_name n \<in> set taken then fresh_from taken tries (Suc n) else n)"

definition fresh :: "string list \<Rightarrow> string" where
  "fresh taken = mk_name (fresh_from taken (length taken) 0)"

text \<open>
  The alias table for the states \<open>rs\<close> of the right-hand automaton: a name that is a
  left-hand state is mapped to a fresh name, any other name to itself.
\<close>

fun alias_names :: "string list \<Rightarrow> string list \<Rightarrow> string list \<Rightarrow> (string \<times> string) list" where
  "alias_names left_names taken [] = []"
| "alias_names left_names taken (r # rs) =
     (if r \<in> set left_names
      then (r, fresh taken) # alias_names left_names (fresh taken # taken) rs
      else (r, r) # alias_names left_names taken rs)"

definition rename :: "(string \<times> string) list \<Rightarrow> string \<Rightarrow> string" where
  "rename m s = (case map_of m s of None \<Rightarrow> s | Some t \<Rightarrow> t)"

definition rename_states :: "(string \<times> string) list \<Rightarrow> enfa \<Rightarrow> enfa" where
  "rename_states m B =
     B\<lparr>states := map (rename m) (states B),
       start_state := rename m (start_state B),
       accepted_states := map (rename m) (accepted_states B),
       transitions := map (\<lambda>(p, b, q). (rename m p, b, rename m q)) (transitions B),
       current := map (rename m) (current B)\<rparr>"

text \<open>The right-hand automaton with its colliding states renamed.\<close>

definition alias_right :: "enfa \<Rightarrow> enfa \<Rightarrow> enfa" where
  "alias_right A B =
     rename_states (alias_names (states A) (states A @ states B) (states B)) B"

text \<open>
  Union: a fresh start state \<open>s\<close> with \<epsilon>-transitions to both starts, a fresh accept
  state \<open>a\<close> with \<epsilon>-transitions from every accept state of the operands.
\<close>

definition add_states :: "enfa \<Rightarrow> enfa \<Rightarrow> string \<Rightarrow> string \<Rightarrow> enfa" where
  "add_states A B' s a =
     EPSILON_NFA (states A @ states B' @ [s, a])
       (List.union (inputs A) (inputs B')) s [a]
       (transitions A @ transitions B' @
        [(s, ''$'', start_state A), (s, ''$'', start_state B')] @
        map (\<lambda>f. (f, ''$'', a)) (accepted_states A @ accepted_states B'))"

definition add_start :: "enfa \<Rightarrow> enfa \<Rightarrow> string \<Rightarrow> enfa" where
  "add_start A B' s = add_states A B' s (fresh (s # states A @ states B'))"

definition add_renamed :: "enfa \<Rightarrow> enfa \<Rightarrow> enfa" where
  "add_renamed A B' = add_start A B' (fresh (states A @ states B'))"

definition enfa_add :: "enfa \<Rightarrow> enfa \<Rightarrow> enfa" where
  "enfa_add A B = add_renamed A (alias_right A B)"

text \<open>
  Concatenation: an \<epsilon>-transition from every accept state of the left operand to the
  start of the right one.
\<close>

definition mul_renamed :: "enfa \<Rightarrow> enfa \<Rightarrow> enfa" where
  "mul_renamed A B' =
     EPSILON_NFA (states A @ states B')
       (List.union (inputs A) (inputs B')) (start_state A) (accepted_states B')
       (transitions A @ transitions B' @
        map (\<lambda>f. (f, ''$'', start_state B')) (accepted_states A))"

definition enfa_mul :: "enfa \<Rightarrow> enfa \<Rightarrow> enfa" where
  "enfa_mul A B = mul_renamed A (alias_right A B)"

text \<open>
  Kleene closure: a fresh start \<open>s\<close> and a fresh accept \<open>a\<close>; \<epsilon>-transitions from \<open>s\<close>
  to the old start and to \<open>a\<close>, and from every old accept state to \<open>s\<close> and to \<open>a\<close>.
\<close>

definition kleene_states :: "enfa \<Rightarrow> string \<Rightarrow> string \<Rightarrow> enfa" where
  "kleene_states A s a =
     EPSILON_NFA (states A @ [s, a]) (inputs A) s [a]
       (transitions A @
        [(s, ''$'', start_state A), (s, ''$'', a)] @
        concat (map (\<lambda>f. [(f, ''$'', s), (f, ''$'', a)]) (accepted_states A)))"

definition kleene_start :: "enfa \<Rightarrow> string \<Rightarrow> enfa" where
  "kleene_start A s = kleene_states A s (fresh (s # states A))"

definition kleene_operator :: "enfa \<Rightarrow> enfa" where
  "kleene_operator A = kleene_start A (fresh (states A))"

text \<open>Deep copy: every state receives a fresh name.\<close>

definition copy_renamed :: "enfa \<Rightarrow> enfa \<Rightarrow> enfa" where
  "copy_renamed A A' =
     EPSILON_NFA (states A') (inputs A) (start_state A') (accepted_states A') (transitions A')"

definition deepcopy :: "enfa \<Rightarrow> enfa" where
  "deepcopy A = copy_renamed A (rename_states (alias_names (states A) (states A) (states A)) A)"

section \<open>From operator nodes to automata (grammar/operators.py)\<close>

text \<open>
  A triple-quoted literal of the source: its lines, joined by newlines; the lines after
  the first carry the indentation they have in the source file.
\<close>

definition block :: "nat \<Rightarrow> string list \<Rightarrow> string" where
  "block indent ls =
     (case ls of
        [] \<Rightarrow> []
      | l # rest \<Rightarrow> l @ concat (map (\<lambda>x. newline # replicate indent (CHR '' '') @ x) rest))"

text \<open>
  \<^verbatim>\<open>ord\<close> of an item: a \<^verbatim>\<open>TypeError\<close> unless the item is a string of length one.
\<close>

fun ord :: "item \<Rightarrow> error + nat" where
  "ord (Str [c]) = Inr (of_char c)"
| "ord x = Inl TypeError"

definition all_characters :: "item \<Rightarrow> item \<Rightarrow> error + string" where
  "all_characters first_item last_item =
     (case ord first_item of
        Inl e \<Rightarrow> Inl e
      | Inr lo \<Rightarrow> (case ord last_item of
                     Inl e \<Rightarrow> Inl e
                   | Inr hi \<Rightarrow> Inr (map char_of [lo ..< hi + 1])))"

text \<open>The characters from \<open>lo\<close> to \<open>hi\<close>, as \<^verbatim>\<open>all_characters\<close> lists them.\<close>

definition char_range :: "char \<Rightarrow> char \<Rightarrow> string" where
  "char_range lo hi = map char_of [of_char lo ..< of_char hi + 1]"

definition collation_result :: "string \<Rightarrow> string" where
  "collation_result cs = butlast (concat (map (\<lambda>c. ''c0,'' @ [c] @ ''->c1'' @ [newline]) cs))"

definition collation_inputs :: "string \<Rightarrow> string" where
  "collation_inputs cs = butlast (concat (map (\<lambda>c. [c] @ '','') cs))"

definition collation_execute :: "item \<Rightarrow> item \<Rightarrow> error + enfa" where
  "collation_execute first_item last_item =
     (case all_characters first_item last_item of
        Inl e \<Rightarrow> Inl e
      | Inr cs \<Rightarrow>
          factory (block 12 [''c0,c1'', collation_inputs cs, ''c1'', ''c0'', collation_result cs]))"

definition alternation_text :: "string \<Rightarrow> string" where
  "alternation_text s = block 16 [''u0, u1'', s, ''u1'', ''u0'', ''u0,'' @ s @ ''->u1'']"

definition concatenation_first_text :: "string \<Rightarrow> string" where
  "concatenation_first_text s = block 16 [''c0,c1'', s, ''c1'', ''c0'', ''c0,'' @ s @ ''->c1'']"

definition concatenation_last_text :: "string \<Rightarrow> string" where
  "concatenation_last_text s = block 16 [''c0, c1'', s, ''c1'', ''c0'', ''c0,'' @ s @ ''->c1'']"

definition kleene_star_text :: "string \<Rightarrow> string" where
  "kleene_star_text s = block 16 [''ks0,ks1'', s, ''ks1'', ''ks0'', ''ks0,'' @ s @ ''->ks1'']"

definition kleene_plus_text :: "string \<Rightarrow> string" where
  "kleene_plus_text s = block 16 [''kp0,kp1'', s, ''kp1'', ''kp0'', ''kp0,'' @ s @ ''->kp1'']"

text \<open>
  The literal of \<^verbatim>\<open>QuestionMark.execute\<close> for a string item: the source does not
  apply \<^verbatim>\<open>.format\<close> to it, so the text holds the placeholder \<^verbatim>\<open>{0}\<close> itself and
  does not depend on the item.
\<close>

definition question_mark_text :: "string \<Rightarrow> string" where
  "question_mark_text s =
     block 16 [''qm0,qm1'', ''{0}'', ''qm1'', ''qm0'', ''qm0,{0}->qm1'', ''qm0,$->qm1'']"

definition question_mark_start_text :: string where
  "question_mark_start_text = block 16 [''qm'', '''', ''qm'', ''qm'', '''']"

text \<open>
  The automaton of an operand: built from the literal for a string, by \<^verbatim>\<open>execute\<close>
  (whose result is \<open>rec\<close>) for an operator; for any other item neither branch of the
  source assigns the variable.
\<close>

definition operand_enfa :: "(string \<Rightarrow> string) \<Rightarrow> item \<Rightarrow> error + enfa \<Rightarrow> error + enfa option" where
  "operand_enfa template x rec =
     (case x of
        Str s \<Rightarrow> (case factory (template s) of Inl e \<Rightarrow> Inl e | Inr A \<Rightarrow> Inr (Some A))
      | Lst l \<Rightarrow> Inr None
      | _ \<Rightarrow> (case rec of Inl e \<Rightarrow> Inl e | Inr A \<Rightarrow> Inr (Some A)))"

definition binary_execute ::
  "(enfa \<Rightarrow> enfa \<Rightarrow> enfa) \<Rightarrow> error + enfa option \<Rightarrow> error + enfa option \<Rightarrow> error + enfa" where
  "binary_execute f first_enfa last_enfa =
     (case first_enfa of
        Inl e \<Rightarrow> Inl e
      | Inr a \<Rightarrow>
          (case last_enfa of
             Inl e \<Rightarrow> Inl e
           | Inr b \<Rightarrow>
               (case (a, b) of
                  (Some A, Some B) \<Rightarrow> Inr (f A B)
                | _ \<Rightarrow> Inl UnboundLocalError)))"

definition unary_execute :: "(enfa \<Rightarrow> enfa) \<Rightarrow> error + enfa option \<Rightarrow> error + enfa" where
  "unary_execute f item_enfa =
     (case item_enfa of
        Inl e \<Rightarrow> Inl e
      | Inr None \<Rightarrow> Inl UnboundLocalError
      | Inr (Some A) \<Rightarrow> Inr (f A))"

text \<open>
  Modelled from the spec: \<^verbatim>\<open>Single.execute\<close> (the class is absent) gives the
  primitive automaton with start \<open>s0\<close>, accept \<open>s1\<close> and the one transition on the
  character.
\<close>

fun single_execute :: "item \<Rightarrow> error + enfa" where
  "single_execute (Str a) = Inr (EPSILON_NFA [''s0'', ''s1''] [a] ''s0'' [''s1''] [(''s0'', a, ''s1'')])"
| "single_execute x = Inl TypeError"

text \<open>
  Modelled from the spec: in \<^verbatim>\<open>QuestionMark.execute\<close> for an operator item the right
  operand of \<^verbatim>\<open>+\<close> is the operator node, not an automaton.  The union is defined on
  automata only; the node has none of an automaton's attributes.
\<close>

definition enfa_add_item :: "enfa \<Rightarrow> item \<Rightarrow> error + enfa" where
  "enfa_add_item A x = Inl AttributeError"

definition question_mark_operator :: "item \<Rightarrow> error + enfa" where
  "question_mark_operator x =
     (case factory question_mark_start_text of
        Inl e \<Rightarrow> Inl e
      | Inr start_enfa \<Rightarrow>
          (let end_enfa = deepcopy start_enfa
           in enfa_add_item (enfa_mul start_enfa end_enfa) x))"

text \<open>The result of \<^verbatim>\<open>KleenePlus.execute\<close>: \<^verbatim>\<open>enfa.deepcopy() * enfa.kleene_operator()\<close>.\<close>

definition kleene_plus :: "enfa \<Rightarrow> enfa" where
  "kleene_plus enfa = enfa_mul (deepcopy enfa) (kleene_operator enfa)"

fun execute :: "item \<Rightarrow> error + enfa" where
  "execute (Str s) = Inl AttributeError"
| "execute (Lst l) = Inl AttributeError"
| "execute (Single x) = single_execute x"
| "execute (Collation a b) = collation_execute a b"
| "execute (Alternation a b) =
     binary_execute enfa_add
       (operand_enfa alternation_text a (execute a))
       (operand_enfa alternation_text b (execute b))"
| "execute (Concatenation a b) =
     binary_execute enfa_mul
       (operand_enfa concatenation_first_text a (execute a))
       (operand_enfa concatenation_last_text b (execute b))"
| "execute (KleeneStar x) =
     unary_execute kleene_operator (operand_enfa kleene_star_text x (execute x))"
| "execute (KleenePlus x) =
     unary_execute kleene_plus (operand_enfa kleene_plus_text x (execute x))"
| "execute (QuestionMark x) =
     (case x of
        Str s \<Rightarrow> factory (question_mark_text s)
      | Lst l \<Rightarrow> Inl UnboundLocalError
      | _ \<Rightarrow> question_mark_operator x)"

section \<open>The compiled regex (grammar/regular\_expressions.py)\<close>

record regex =
  regex_name :: string
  regex_text :: string
  groups :: item
  automaton :: enfa

text \<open>\<^verbatim>\<open>RegEx.__init__\<close>.\<close>

definition RegEx :: "string \<Rightarrow> string \<Rightarrow> error + regex" where
  "RegEx text name =
     (case parse text of
        Inl e \<Rightarrow> Inl e
      | Inr g \<Rightarrow>
          (case execute g of
             Inl e \<Rightarrow> Inl e
           | Inr A \<Rightarrow> Inr \<lparr>regex_name = name, regex_text = text, groups = g, automaton = A\<rparr>))"

definition valid_characters :: "regex \<Rightarrow> string list" where
  "valid_characters R = inputs (automaton R)"

text \<open>
  \<^verbatim>\<open>RegEx.check\<close>.  A character of the text is the one-character string.  The loop
  carries the automaton, whose current set \<^verbatim>\<open>enter\<close> changes.
\<close>

fun check_loop :: "enfa \<Rightarrow> string \<Rightarrow> error + bool" where
  "check_loop A [] = Inr (accepted A)"
| "check_loop A (c # cs) =
     (if [c] \<notin> set (inputs A) then Inr False
      else (case enter A [c] of
              Inl e \<Rightarrow> Inl e
            | Inr A' \<Rightarrow> check_loop A' cs))"

definition check :: "regex \<Rightarrow> string \<Rightarrow> error + bool" where
  "check R text =
     (case reset (automaton R) of
        Inl e \<Rightarrow> Inl e
      | Inr A \<Rightarrow> check_loop A text)"

text \<open>The module-level constant \<^verbatim>\<open>INTEGER\<close>.\<close>

definition INTEGER :: "error + regex" where
  "INTEGER = RegEx ''[0-9]+'' ''INTEGER''"
section \<open>Properties of the \<epsilon>-closure\<close>


lemma eclose_mono: "S \<subseteq> T \<Longrightarrow> eclose A S \<subseteq> eclose A T"
proof
  fix x assume "S \<subseteq> T" "x \<in> eclose A S"
  from this(2) this(1) show "x \<in> eclose A T"
    by (induction rule: eclose.induct) (auto intro: eclose.intros)
qed

lemma eclose_least: "S \<subseteq> T \<Longrightarrow> eps_closed A T \<Longrightarrow> eclose A S \<subseteq> T"
proof
  fix x assume "S \<subseteq> T" "eps_closed A T" "x \<in> eclose A S"
  from this(3) this(1,2) show "x \<in> T"
    by (induction rule: eclose.induct) (auto simp: eps_closed_def)
qed

lemma eclose_closed: "eps_closed A (eclose A S)"
  by (auto simp: eps_closed_def intro: eclose.step)

lemma eclose_absorb: "T \<subseteq> eclose A S \<Longrightarrow> eclose A (S \<union> T) = eclose A S"
proof
  assume "T \<subseteq> eclose A S"
  then have "S \<union> T \<subseteq> eclose A S" by (auto intro: eclose.base)
  then show "eclose A (S \<union> T) \<subseteq> eclose A S"
    by (rule eclose_least) (rule eclose_closed)
next
  show "eclose A S \<subseteq> eclose A (S \<union> T)" by (rule eclose_mono) simp
qed

lemma e_closure_loop_inv:
  "e_closure_loop A p c = Inr C \<Longrightarrow>
     set c \<subseteq> set C \<and> set p \<subseteq> set C \<and>
     (\<forall>x \<in> set C - set c. set (forward A x (epsilon A)) \<subseteq> set C) \<and>
     set C \<subseteq> eclose A (set c \<union> set p)"
proof (induction A p c rule: e_closure_loop.induct)
  case (1 A closure)
  then show ?case by (auto intro: eclose.base)
next
  case (2 A eps pending closure)
  show ?case
  proof (cases "eps \<in> set closure")
    case True
    with 2 have ih: "set closure \<subseteq> set C \<and> set pending \<subseteq> set C \<and>
       (\<forall>x \<in> set C - set closure. set (forward A x (epsilon A)) \<subseteq> set C) \<and>
       set C \<subseteq> eclose A (set closure \<union> set pending)" by simp
    have "eclose A (set closure \<union> set pending) \<subseteq> eclose A (set closure \<union> set (eps # pending))"
      by (rule eclose_mono) auto
    with ih True show ?thesis by auto
  next
    case False
    with 2(3) have inst: "eps \<in> set (states A)" by (auto split: if_splits)
    with 2 False have ih: "set (List.insert eps closure) \<subseteq> set C \<and>
       set (forward A eps (epsilon A) @ pending) \<subseteq> set C \<and>
       (\<forall>x \<in> set C - set (List.insert eps closure). set (forward A x (epsilon A)) \<subseteq> set C) \<and>
       set C \<subseteq> eclose A (set (List.insert eps closure) \<union> set (forward A eps (epsilon A) @ pending))"
      by simp
    let ?S = "set closure \<union> set (eps # pending)"
    have "set (forward A eps (epsilon A)) \<subseteq> eclose A ?S"
      by (auto intro: eclose.step eclose.base)
    then have "eclose A (?S \<union> set (forward A eps (epsilon A))) = eclose A ?S"
      by (rule eclose_absorb)
    moreover have "set (List.insert eps closure) \<union> set (forward A eps (epsilon A) @ pending)
        = ?S \<union> set (forward A eps (epsilon A))" by auto
    ultimately have "set C \<subseteq> eclose A ?S" using ih by simp
    moreover have "\<forall>x \<in> set C - set closure. set (forward A x (epsilon A)) \<subseteq> set C"
      using ih by auto
    ultimately show ?thesis using ih by auto
  qed
qed

lemma e_closure_loop_succeeds:
  "\<forall>(p, b, q) \<in> set (transitions A). q \<in> set (states A) \<Longrightarrow> set p \<subseteq> set (states A) \<Longrightarrow>
     \<exists>C. e_closure_loop A p c = Inr C"
proof (induction A p c rule: e_closure_loop.induct)
  case (1 A closure)
  then show ?case by simp
next
  case (2 A eps pending closure)
  have "set (forward A eps (epsilon A)) \<subseteq> set (states A)"
    using 2(3) by (auto simp: forward_def)
  with 2 show ?case by auto
qed


lemma e_closure_loop_states:
  "e_closure_loop A p c = Inr C \<Longrightarrow> set C \<subseteq> set c \<union> set (states A)"
proof (induction A p c rule: e_closure_loop.induct)
  case (1 A closure)
  then show ?case by auto
next
  case (2 A eps pending closure)
  then show ?case by (auto split: if_splits)
qed

lemma e_closure_loop_done:
  "set p \<subseteq> set c \<Longrightarrow> e_closure_loop A p c = Inr c"
  by (induction p) auto

lemma e_closure_inv:
  assumes "e_closure A i c = Inr C"
  shows "i \<in> set (states A)" and "insert i (set c) \<subseteq> set C"
    and "set (forward A i (epsilon A)) \<subseteq> set C"
    and "\<forall>x \<in> set C - insert i (set c). set (forward A x (epsilon A)) \<subseteq> set C"
    and "set C \<subseteq> eclose A (insert i (set c))"
    and "set C \<subseteq> insert i (set c) \<union> set (states A)"
proof -
  from assms show i: "i \<in> set (states A)"
    by (auto simp: e_closure_def split: if_splits)
  with assms have l: "e_closure_loop A (forward A i (epsilon A)) (List.insert i c) = Inr C"
    by (simp add: e_closure_def)
  note inv = e_closure_loop_inv [OF l]
  from inv show "insert i (set c) \<subseteq> set C" by simp
  from inv show "set (forward A i (epsilon A)) \<subseteq> set C" by simp
  from inv show "\<forall>x \<in> set C - insert i (set c). set (forward A x (epsilon A)) \<subseteq> set C" by simp
  have "set (forward A i (epsilon A)) \<subseteq> eclose A (insert i (set c))"
    by (auto intro: eclose.step eclose.base)
  then have "eclose A (insert i (set c) \<union> set (forward A i (epsilon A))) = eclose A (insert i (set c))"
    by (rule eclose_absorb)
  with inv show "set C \<subseteq> eclose A (insert i (set c))" by simp
  from e_closure_loop_states [OF l] show "set C \<subseteq> insert i (set c) \<union> set (states A)" by simp
qed

lemma e_closures_loop_inv:
  "set is \<subseteq> set c \<Longrightarrow> e_closures_loop A is c = Inr C \<Longrightarrow>
     set is \<subseteq> set (states A) \<and> set c \<subseteq> set C \<and>
     (\<forall>x \<in> set is \<union> (set C - set c). set (forward A x (epsilon A)) \<subseteq> set C) \<and>
     set C \<subseteq> eclose A (set c) \<and> set C \<subseteq> set c \<union> set (states A)"
proof (induction "is" arbitrary: c)
  case Nil
  then show ?case by (auto intro: eclose.base)
next
  case (Cons i rest)
  from Cons.prems(2) obtain c1 where c1: "e_closure A i c = Inr c1"
    and r: "e_closures_loop A rest (List.union c c1) = Inr C"
    by (auto split: sum.splits)
  note v = e_closure_inv [OF c1]
  from Cons.prems(1) have ic: "insert i (set c) = set c" by auto
  have u: "set c \<union> set c1 = set c1" using v(2) by auto
  have "set rest \<subseteq> set (List.union c c1)" using Cons.prems(1) v(2) by auto
  from Cons.IH [OF this r] have ih: "set rest \<subseteq> set (states A)" "set c1 \<subseteq> set C"
    "\<forall>x \<in> set rest \<union> (set C - set c1). set (forward A x (epsilon A)) \<subseteq> set C"
    "set C \<subseteq> eclose A (set c1)" "set C \<subseteq> set c1 \<union> set (states A)"
    by (simp_all add: u)
  have "eclose A (set c1) \<subseteq> eclose A (set c)"
    using v(5) by (simp add: ic eclose_least eclose_closed)
  with ih(4) have 4: "set C \<subseteq> eclose A (set c)" by auto
  have 3: "\<forall>x \<in> set (i # rest) \<union> (set C - set c). set (forward A x (epsilon A)) \<subseteq> set C"
  proof
    fix x assume x: "x \<in> set (i # rest) \<union> (set C - set c)"
    show "set (forward A x (epsilon A)) \<subseteq> set C"
    proof (cases "x = i")
      case True
      with v(3) ih(2) show ?thesis by auto
    next
      case False
      show ?thesis
      proof (cases "x \<in> set rest \<union> (set C - set c1)")
        case True
        with ih(3) show ?thesis by blast
      next
        case False
        with x \<open>x \<noteq> i\<close> have "x \<in> set c1 - insert i (set c)" by (auto simp: ic)
        with v(4) ih(2) show ?thesis by blast
      qed
    qed
  qed
  from v(1) ih(1) v(2) ih(2) 3 4 ih(5) v(6) ic show ?case by auto
qed

lemma e_closures_result:
  assumes "e_closures A S = Inr C"
  shows "set C = eclose A (set S)" and "set C \<subseteq> set (states A)"
proof -
  from assms have l: "e_closures_loop A S (remdups S) = Inr C" by (simp add: e_closures_def)
  have "set S \<subseteq> set (remdups S)" by simp
  note inv = e_closures_loop_inv [OF this l]
  from inv have sub: "set S \<subseteq> set C" by simp
  from inv have cl: "eps_closed A (set C)" by (auto simp: eps_closed_def)
  from inv have "set C \<subseteq> eclose A (set S)" by simp
  with eclose_least [OF sub cl] show "set C = eclose A (set S)" by auto
  from inv show "set C \<subseteq> set (states A)" by auto
qed

lemma e_closures_loop_succeeds:
  "\<forall>(p, b, q) \<in> set (transitions A). q \<in> set (states A) \<Longrightarrow> set is \<subseteq> set (states A) \<Longrightarrow>
     \<exists>C. e_closures_loop A is c = Inr C"
proof (induction "is" arbitrary: c)
  case Nil
  then show ?case by simp
next
  case (Cons i rest)
  have "set (forward A i (epsilon A)) \<subseteq> set (states A)"
    using Cons.prems(1) by (auto simp: forward_def)
  from e_closure_loop_succeeds [OF Cons.prems(1) this]
  obtain c1 where "e_closure_loop A (forward A i (epsilon A)) (List.insert i c) = Inr c1" by blast
  with Cons.prems(2) have "e_closure A i c = Inr c1" by (simp add: e_closure_def)
  moreover from Cons have "\<exists>C. e_closures_loop A rest (List.union c c1) = Inr C" by simp
  ultimately show ?case by auto
qed

lemma e_closures_succeeds:
  "\<forall>(p, b, q) \<in> set (transitions A). q \<in> set (states A) \<Longrightarrow> set S \<subseteq> set (states A) \<Longrightarrow>
     \<exists>C. e_closures A S = Inr C"
  unfolding e_closures_def by (rule e_closures_loop_succeeds)

lemma fold_insert_absorb: "set xs \<subseteq> set c \<Longrightarrow> fold List.insert xs c = c"
  by (induction xs) (auto simp: List.insert_def)

lemma e_closures_loop_closed:
  "set is \<subseteq> set c \<Longrightarrow> set c \<subseteq> set (states A) \<Longrightarrow> eps_closed A (set c) \<Longrightarrow>
     e_closures_loop A is c = Inr c"
proof (induction "is")
  case Nil
  then show ?case by simp
next
  case (Cons i rest)
  then have i: "i \<in> set c" "i \<in> set (states A)" by auto
  then have "set (forward A i (epsilon A)) \<subseteq> set c" using Cons.prems(3) by (auto simp: eps_closed_def)
  then have "e_closure_loop A (forward A i (epsilon A)) c = Inr c" by (rule e_closure_loop_done)
  moreover have "List.insert i c = c" using i by (simp add: List.insert_def)
  ultimately have "e_closure A i c = Inr c" using i by (simp add: e_closure_def)
  moreover have "List.union c c = c" by (simp add: List.union_def fold_insert_absorb)
  ultimately show ?case using Cons by simp
qed


lemma e_closure_loop_distinct:
  "e_closure_loop A p c = Inr C \<Longrightarrow> distinct c \<Longrightarrow> distinct C"
proof (induction A p c rule: e_closure_loop.induct)
  case (1 A closure)
  then show ?case by auto
next
  case (2 A eps pending closure)
  then show ?case by (auto split: if_splits)
qed

lemma e_closures_loop_distinct:
  "e_closures_loop A is c = Inr C \<Longrightarrow> distinct c \<Longrightarrow> distinct C"
proof (induction "is" arbitrary: c)
  case Nil
  then show ?case by simp
next
  case (Cons i rest)
  from Cons.prems(1) obtain c1 where c1: "e_closure A i c = Inr c1"
    and r: "e_closures_loop A rest (List.union c c1) = Inr C"
    by (auto split: sum.splits)
  from c1 have "e_closure_loop A (forward A i (epsilon A)) (List.insert i c) = Inr c1"
    by (auto simp: e_closure_def split: if_splits)
  from e_closure_loop_distinct [OF this] Cons.prems(2) have "distinct c1" by simp
  then have "distinct (List.union c c1)" by simp
  from Cons.IH [OF r this] show ?case .
qed

lemma e_closures_distinct: "e_closures A S = Inr C \<Longrightarrow> distinct C"
  unfolding e_closures_def by (erule e_closures_loop_distinct) simp

lemma e_closures_fixed:
  assumes "e_closures A S = Inr C"
  shows "e_closures A C = Inr C"
proof -
  note r = e_closures_result [OF assms]
  have "eps_closed A (set C)" unfolding r(1) by (rule eclose_closed)
  with r(2) have "e_closures_loop A C C = Inr C"
    by (intro e_closures_loop_closed) auto
  with e_closures_distinct [OF assms] show ?thesis
    by (simp add: e_closures_def distinct_remdups_id)
qed

text \<open>
  C7: the \<epsilon>-closure is idempotent.  For a well-formed automaton and states \<open>S\<close>
  of it, \<^verbatim>\<open>_e_closures\<close> returns a set \<open>C\<close> that is the smallest superset of \<open>S\<close>
  closed under \<epsilon>-transitions, and \<^verbatim>\<open>_e_closures\<close> of \<open>C\<close> returns \<open>C\<close> again.
\<close>

theorem e_closures_idempotent:
  assumes "wf_enfa A" and "set S \<subseteq> set (states A)"
  shows "\<exists>C. e_closures A S = Inr C \<and> e_closures A C = Inr C \<and>
           set S \<subseteq> set C \<and> eps_closed A (set C) \<and>
           (\<forall>T. set S \<subseteq> T \<and> eps_closed A T \<longrightarrow> set C \<subseteq> T)"
proof -
  from assms(1) have "\<forall>(p, b, q) \<in> set (transitions A). q \<in> set (states A)"
    by (auto simp: wf_enfa_def)
  from e_closures_succeeds [OF this assms(2)] obtain C where C: "e_closures A S = Inr C" by blast
  note r = e_closures_result [OF C]
  have "set S \<subseteq> set C" unfolding r(1) by (auto intro: eclose.base)
  moreover have "eps_closed A (set C)" unfolding r(1) by (rule eclose_closed)
  moreover have "\<forall>T. set S \<subseteq> T \<and> eps_closed A T \<longrightarrow> set C \<subseteq> T"
    unfolding r(1) by (auto dest: eclose_least)
  ultimately show ?thesis using C e_closures_fixed [OF C] by blast
qed

lemma wf_A_cycle: "wf_enfa A_cycle"
  by (simp add: wf_enfa_def A_cycle_def EPSILON_NFA_def)

lemma A_cycle_closure: "e_closures A_cycle [''p''] = Inr [''q'', ''p'']"
  by (simp add: e_closures_def e_closure_def forward_def A_cycle_def EPSILON_NFA_def List.union_def)

theorem e_closures_idempotent_witness:
  "wf_enfa A_cycle \<and> set [''p''] \<subseteq> set (states A_cycle) \<and>
   e_closures A_cycle [''p''] = Inr [''q'', ''p''] \<and>
   e_closures A_cycle [''q'', ''p''] = Inr [''q'', ''p''] \<and>
   eps_closed A_cycle {''p'', ''q''}"
proof -
  have s: "set [''p''] \<subseteq> set (states A_cycle)" by (simp add: A_cycle_def EPSILON_NFA_def)
  from e_closures_idempotent [OF wf_A_cycle s] A_cycle_closure wf_A_cycle s
  show ?thesis by (auto simp: insert_commute)
qed
section \<open>The step of the \<epsilon>-NFA\<close>


lemma add_ends_ok:
  "set res \<subseteq> set (states A) \<Longrightarrow>
     \<exists>oc'. add_ends A res oc = Inr oc' \<and> set oc' = set oc \<union> set res"
  by (induction res arbitrary: oc) fastforce+

lemma access_states_ok:
  assumes "\<forall>(p, b, q) \<in> set (transitions A). q \<in> set (states A)"
  shows "\<exists>oc'. access_states A v ss oc = Inr oc' \<and>
           set oc' = set oc \<union> (\<Union>s \<in> set ss. set (forward A s v))"
proof (induction ss arbitrary: oc)
  case Nil
  then show ?case by simp
next
  case (Cons s ss)
  have "set (forward A s v) \<subseteq> set (states A)"
    using assms by (auto simp: forward_def)
  from add_ends_ok [OF this, of oc] obtain oc1 where
    oc1: "add_ends A (forward A s v) oc = Inr oc1" "set oc1 = set oc \<union> set (forward A s v)"
    by blast
  from Cons [of oc1] obtain oc' where "access_states A v ss oc1 = Inr oc'"
    "set oc' = set oc1 \<union> (\<Union>s \<in> set ss. set (forward A s v))" by blast
  with oc1 show ?case by auto
qed

lemma access_states_within:
  "access_states A v ss oc = Inr oc' \<Longrightarrow> set oc \<subseteq> set (states A) \<Longrightarrow> set oc' \<subseteq> set (states A)"
proof (induction ss arbitrary: oc)
  case Nil
  then show ?case by simp
next
  case (Cons s ss)
  from Cons.prems(1) obtain oc1 where oc1: "add_ends A (forward A s v) oc = Inr oc1"
    and r: "access_states A v ss oc1 = Inr oc'" by (auto split: sum.splits)
  have "\<And>oc. add_ends A res oc = Inr oc1 \<Longrightarrow> set oc \<subseteq> set (states A) \<Longrightarrow> set oc1 \<subseteq> set (states A)" for res
    by (induction res) (auto split: if_splits)
  from this [OF oc1 Cons.prems(2)] Cons.IH [OF r] show ?case by simp
qed

lemma forward_current [simp]: "forward (A\<lparr>current := c\<rparr>) s a = forward A s a"
  by (simp add: forward_def)

lemma eclose_current [simp]: "eclose (A\<lparr>current := c\<rparr>) S = eclose A S"
proof (rule set_eqI, rule iffI)
  fix x assume "x \<in> eclose (A\<lparr>current := c\<rparr>) S"
  then show "x \<in> eclose A S"
    by (induction rule: eclose.induct) (auto intro: eclose.intros)
next
  fix x assume "x \<in> eclose A S"
  then show "x \<in> eclose (A\<lparr>current := c\<rparr>) S"
  proof (induction rule: eclose.induct)
    case (base s)
    then show ?case by (rule eclose.base)
  next
    case (step s d)
    then have "d \<in> set (forward (A\<lparr>current := c\<rparr>) s (epsilon (A\<lparr>current := c\<rparr>)))" by simp
    with step.IH show ?case by (rule eclose.step)
  qed
qed

lemma enter_step:
  assumes "wf_enfa A"
  shows "(enter A v = Inl InputError \<longleftrightarrow> v \<notin> set (inputs A)) \<and>
         (v \<in> set (inputs A) \<longrightarrow>
            (\<exists>C. enter A v = Inr (A\<lparr>current := C\<rparr>) \<and>
                 set C = eclose A (\<Union>s \<in> set (current A). set (forward A s v)) \<and>
                 ((\<Union>s \<in> set (current A). set (forward A s v)) = {} \<longrightarrow> C = [])))"
proof -
  from assms have tr: "\<forall>(p, b, q) \<in> set (transitions A). q \<in> set (states A)"
    by (auto simp: wf_enfa_def)
  let ?N = "\<Union>s \<in> set (current A). set (forward A s v)"
  from access_states_ok [OF tr, of v "current A" "[]"] obtain oc where
    oc: "access_states A v (current A) [] = Inr oc" "set oc = ?N" by auto
  let ?A' = "A\<lparr>current := oc\<rparr>"
  from access_states_within [OF oc(1)] have within: "set oc \<subseteq> set (states ?A')" by simp
  from tr have tr': "\<forall>(p, b, q) \<in> set (transitions ?A'). q \<in> set (states ?A')" by simp
  from e_closures_succeeds [OF tr' within] obtain C where C: "e_closures ?A' oc = Inr C" by blast
  from e_closures_result(1) [OF C] oc(2) have set_C: "set C = eclose A ?N" by simp
  have empty: "?N = {} \<Longrightarrow> C = []"
  proof -
    assume "?N = {}"
    with oc(2) have "oc = []" by simp
    with C show "C = []" by (simp add: e_closures_def)
  qed
  have ok: "v \<in> set (inputs A) \<Longrightarrow> enter A v = Inr (A\<lparr>current := C\<rparr>)"
    using oc(1) C by (simp add: enter_def access_def nfa_access_def all_closures_def)
  have bad: "v \<notin> set (inputs A) \<Longrightarrow> enter A v = Inl InputError"
    by (simp add: enter_def access_def nfa_access_def)
  from ok bad set_C empty show ?thesis by (cases "v \<in> set (inputs A)") auto
qed

text \<open>
  C2: on a well-formed \<epsilon>-NFA, \<^verbatim>\<open>enter(symbol)\<close> raises the invalid-input error iff the
  symbol is not in the inputs; on a symbol of the inputs it does not raise, the current
  set becomes the \<epsilon>-closure of the union of \<open>forward s symbol\<close> over the current states,
  and it becomes empty when that union is empty.
\<close>

theorem enter_spec:
  assumes "wf_enfa A"
  shows "(enter A v = Inl InputError \<longleftrightarrow> v \<notin> set (inputs A)) \<and>
         (v \<in> set (inputs A) \<longrightarrow>
            (\<exists>C. enter A v = Inr (A\<lparr>current := C\<rparr>) \<and>
                 set C = eclose A (\<Union>s \<in> set (current A). set (forward A s v)) \<and>
                 ((\<Union>s \<in> set (current A). set (forward A s v)) = {} \<longrightarrow> C = [])))"
  using assms by (rule enter_step)

lemma A_cycle_enter: "enter A_cycle ''a'' = Inr (A_cycle\<lparr>current := []\<rparr>)"
  by (simp add: enter_def access_def nfa_access_def all_closures_def e_closures_def forward_def A_cycle_def EPSILON_NFA_def)


lemma A_cycle_enter_b: "enter A_cycle ''b'' = Inl InputError"
  by (simp add: enter_def access_def nfa_access_def A_cycle_def EPSILON_NFA_def)

theorem enter_spec_witness:
  "wf_enfa A_cycle \<and> ''a'' \<in> set (inputs A_cycle) \<and> ''b'' \<notin> set (inputs A_cycle) \<and>
   enter A_cycle ''a'' = Inr (A_cycle\<lparr>current := []\<rparr>) \<and>
   enter A_cycle ''b'' = Inl InputError"
proof -
  have b: "''b'' \<notin> set (inputs A_cycle)" and a: "''a'' \<in> set (inputs A_cycle)"
    by (simp_all add: A_cycle_def EPSILON_NFA_def)
  from enter_spec [OF wf_A_cycle, of "''b''"] b have "enter A_cycle ''b'' = Inl InputError" by simp
  with a b wf_A_cycle A_cycle_enter show ?thesis by simp
qed

section \<open>The step of the stack automaton\<close>

text \<open>
  C8: in a step on the input symbol \<open>v\<close> with popped stack top \<open>t\<close>, the transition on
  (\<epsilon>, \<open>t\<close>) is tried first; if it fires, its push sequence without the \<epsilon> placeholders
  is pushed, the current state is updated and the input is not consumed (the flag is
  false).  Only if it does not fire, the transition on (\<open>v\<close>, \<open>t\<close>) is tried, and firing
  it consumes the input.
\<close>

theorem pda_access_epsilon_first:
  assumes "stack P = t # rest"
  shows "(\<forall>q push. clean_forward P (pda_current P) (empty_symbol P, t) = Some (q, push) \<longrightarrow>
            pda_access iadd P v =
              (P\<lparr>pda_current := q, stack := iadd rest (exclude push (empty_symbol P))\<rparr>, False)) \<and>
         (clean_forward P (pda_current P) (empty_symbol P, t) = None \<longrightarrow>
            (\<forall>q push. clean_forward P (pda_current P) (v, t) = Some (q, push) \<longrightarrow>
               pda_access iadd P v =
                 (P\<lparr>pda_current := q, stack := iadd rest (exclude push (empty_symbol P))\<rparr>, True)) \<and>
            (clean_forward P (pda_current P) (v, t) = None \<longrightarrow>
               pda_access iadd P v = (P\<lparr>pda_current := FailedState, stack := rest\<rparr>, True)))"
  using assms by (simp add: pda_access_def)

theorem pda_access_epsilon_first_witness:
  "stack P_example = [''Z''] \<and>
   clean_forward P_example (pda_current P_example) (''a'', ''Z'') = Some (PushState ''q2'', []) \<and>
   pda_access (\<lambda>rest push. rev push @ rest) P_example ''a'' =
     (P_example\<lparr>pda_current := PushState ''q1'', stack := [''A'']\<rparr>, False) \<and>
   pda_access (\<lambda>rest push. rev push @ rest)
       (P_example\<lparr>pda_current := PushState ''q1'', stack := [''A'']\<rparr>) ''a'' =
     (P_example\<lparr>pda_current := PushState ''q2'', stack := []\<rparr>, True)"
proof -
  let ?P1 = "P_example\<lparr>pda_current := PushState ''q1'', stack := [''A'']\<rparr>"
  have s0: "stack P_example = ''Z'' # []" by (simp add: P_example_def)
  have s1: "stack ?P1 = ''A'' # []" by simp
  have e0: "clean_forward P_example (pda_current P_example) (empty_symbol P_example, ''Z'')
      = Some (PushState ''q1'', [''A'', ''$''])"
    by (simp add: clean_forward_def P_example_def)
  have e1: "clean_forward ?P1 (pda_current ?P1) (empty_symbol ?P1, ''A'') = None"
    by (simp add: clean_forward_def P_example_def)
  have v1: "clean_forward ?P1 (pda_current ?P1) (''a'', ''A'') = Some (PushState ''q2'', [''$''])"
    by (simp add: clean_forward_def P_example_def)
  have v0: "clean_forward P_example (pda_current P_example) (''a'', ''Z'') = Some (PushState ''q2'', [])"
    by (simp add: clean_forward_def P_example_def)
  from pda_access_epsilon_first [OF s0, of "\<lambda>rest push. rev push @ rest" "''a''"] e0
  have a0: "pda_access (\<lambda>rest push. rev push @ rest) P_example ''a'' =
     (P_example\<lparr>pda_current := PushState ''q1'', stack := [''A'']\<rparr>, False)"
    by (simp add: exclude_def P_example_def)
  from pda_access_epsilon_first [OF s1, of "\<lambda>rest push. rev push @ rest" "''a''"] e1 v1
  have a1: "pda_access (\<lambda>rest push. rev push @ rest) ?P1 ''a'' =
     (P_example\<lparr>pda_current := PushState ''q2'', stack := []\<rparr>, True)"
    by (simp add: exclude_def P_example_def)
  from s0 v0 a0 a1 show ?thesis by simp
qed

section \<open>The operand check of the operator constructors\<close>

lemma check_type_err_iff:
  "check_type_err ks x = (if ks = [] \<or> has_kind ks x then Inr () else Inl OperatorInputTypeError)"
  by (auto simp: check_type_err_def has_kind_def)

lemma new_binary_iff:
  "new_binary ks cls a b =
     (if ks = [] \<or> (has_kind ks a \<and> has_kind ks b) then Inr (cls a b) else Inl OperatorInputTypeError)"
  by (auto simp: new_binary_def check_type_err_iff)

lemma new_unary_iff:
  "new_unary ks cls x =
     (if ks = [] \<or> has_kind ks x then Inr (cls x) else Inl OperatorInputTypeError)"
  by (auto simp: new_unary_def check_type_err_iff)

lemma has_kind_str: "has_kind [KStr] x \<longleftrightarrow> (\<exists>s. x = Str s)"
  by (cases x) (auto simp: has_kind_def)

lemma has_kind_str_op: "has_kind [KStr, KOperator] x \<longleftrightarrow> (\<forall>l. x \<noteq> Lst l)"
  by (cases x) (auto simp: has_kind_def)

text \<open>
  Against C9 as stated: \<^verbatim>\<open>Collation\<close> is built from the two-character string \<open>ab\<close>; its
  declared kind is \<^verbatim>\<open>str\<close>, of any length.
\<close>

theorem collation_two_characters_counterexample:
  "new_Collation (Str ''ab'') (Str ''z'') = Inr (Collation (Str ''ab'') (Str ''z''))"
  by (simp add: new_Collation_def new_binary_def check_type_err_def)

text \<open>
  C9, amended: a constructor with a non-empty declared set of kinds raises the
  invalid-operand-type error exactly for an operand of no declared kind; \<^verbatim>\<open>Collation\<close>
  is built exactly from two strings (of any length), the other operators exactly from
  strings and operators.
\<close>

theorem constructors_check_kinds:
  "(new_Collation a b =
      (if (\<exists>s. a = Str s) \<and> (\<exists>s. b = Str s) then Inr (Collation a b) else Inl OperatorInputTypeError)) \<and>
   (new_Alternation a b =
      (if (\<forall>l. a \<noteq> Lst l) \<and> (\<forall>l. b \<noteq> Lst l) then Inr (Alternation a b) else Inl OperatorInputTypeError)) \<and>
   (new_Concatenation a b =
      (if (\<forall>l. a \<noteq> Lst l) \<and> (\<forall>l. b \<noteq> Lst l) then Inr (Concatenation a b) else Inl OperatorInputTypeError)) \<and>
   (new_KleeneStar a = (if (\<forall>l. a \<noteq> Lst l) then Inr (KleeneStar a) else Inl OperatorInputTypeError)) \<and>
   (new_KleenePlus a = (if (\<forall>l. a \<noteq> Lst l) then Inr (KleenePlus a) else Inl OperatorInputTypeError)) \<and>
   (new_QuestionMark a = (if (\<forall>l. a \<noteq> Lst l) then Inr (QuestionMark a) else Inl OperatorInputTypeError)) \<and>
   (\<forall>ks ucls bcls. ks \<noteq> [] \<and> \<not> (\<exists>k \<in> set ks. isinstance a k) \<longrightarrow>
       new_unary ks ucls a = Inl OperatorInputTypeError \<and>
       new_binary ks bcls a b = Inl OperatorInputTypeError \<and>
       new_binary ks bcls b a = Inl OperatorInputTypeError)"
  by (auto simp: new_Collation_def new_Alternation_def new_Concatenation_def new_KleeneStar_def
      new_KleenePlus_def new_QuestionMark_def new_binary_iff new_unary_iff has_kind_str has_kind_str_op)
    (auto simp: has_kind_def)

theorem constructors_check_kinds_witness:
  "[KStr] \<noteq> [] \<and> \<not> isinstance (Lst []) KStr \<and>
   new_unary [KStr] Single (Lst []) = Inl OperatorInputTypeError \<and>
   new_Collation (Lst []) (Str ''z'') = Inl OperatorInputTypeError \<and>
   new_Collation (Str ''a'') (Str ''z'') = Inr (Collation (Str ''a'') (Str ''z'')) \<and>
   new_KleeneStar (Lst []) = Inl OperatorInputTypeError"
  using constructors_check_kinds [of "Lst []" "Str ''z''"] constructors_check_kinds [of "Str ''a''" "Str ''z''"]
  by simp

section \<open>The parser on unbalanced parentheses\<close>

lemma extract_close_open: "extract_bracket '')('' = Inr [Lst []]"
  by code_simp

text \<open>
  C3: the pattern \<open>)(\<close> has unbalanced parentheses, and its compilation does not raise
  a parse error: the count of parentheses is zero at the end, the extraction yields one
  empty group, and \<^verbatim>\<open>_process\<close> of the empty group fails on \<^verbatim>\<open>group[0]\<close>.
\<close>

theorem parse_close_open: "parse '')('' = Inl IndexError \<and> RegEx '')('' ''X'' = Inl IndexError"
proof -
  have "parse '')('' = Inl IndexError" by code_simp
  then show ?thesis by (simp add: RegEx_def)
qed

section \<open>The automaton of the question mark\<close>

lemma question_mark_factory:
  "factory (question_mark_text s) =
     Inr (EPSILON_NFA [''qm0'', ''qm1''] [''{0}''] ''qm0'' [''qm1'']
            [(''qm0'', ''{0}'', ''qm1''), (''qm0'', ''$'', ''qm1'')])"
  unfolding question_mark_text_def by code_simp

lemma question_mark_execute:
  "execute (QuestionMark (Str s)) =
     Inr (EPSILON_NFA [''qm0'', ''qm1''] [''{0}''] ''qm0'' [''qm1'']
            [(''qm0'', ''{0}'', ''qm1''), (''qm0'', ''$'', ''qm1'')])"
  by (simp add: question_mark_factory)

text \<open>
  C6: the regex \<open>a?\<close> does not accept the string \<open>a\<close>.  The literal of
  \<^verbatim>\<open>QuestionMark.execute\<close> is not formatted, so the automaton reads the placeholder
  \<^verbatim>\<open>{0}\<close> instead of the character; the valid characters are \<open>$\<close> and \<^verbatim>\<open>{0}\<close>.
\<close>

theorem question_mark_check:
  "(case RegEx ''a?'' ''Q'' of
      Inl e \<Rightarrow> None
    | Inr R \<Rightarrow> Some (valid_characters R, check R ''a'', check R '''', check R ''$''))
   = Some ([''$'', ''{0}''], Inr False, Inr True, Inr True)"
  by code_simp

section \<open>The \<epsilon>-symbol among the valid characters\<close>

lemma EPSILON_NFA_dollar [simp]:
  "''$'' \<in> set (inputs (EPSILON_NFA sts ins st acc trs))" "epsilon (EPSILON_NFA sts ins st acc trs) = ''$''"
  by (simp_all add: EPSILON_NFA_def)

lemma factory_dollar: "factory text = Inr A \<Longrightarrow> ''$'' \<in> set (inputs A) \<and> epsilon A = ''$''"
  by (auto simp: factory_def Let_def split: list.splits sum.splits if_splits)

lemma enfa_add_dollar [simp]: "''$'' \<in> set (inputs (enfa_add A B))" "epsilon (enfa_add A B) = ''$''"
  by (simp_all add: enfa_add_def add_renamed_def add_start_def add_states_def)

lemma enfa_mul_dollar [simp]: "''$'' \<in> set (inputs (enfa_mul A B))" "epsilon (enfa_mul A B) = ''$''"
  by (simp_all add: enfa_mul_def mul_renamed_def)

lemma kleene_operator_dollar [simp]:
  "''$'' \<in> set (inputs (kleene_operator A))" "epsilon (kleene_operator A) = ''$''"
  by (simp_all add: kleene_operator_def kleene_start_def kleene_states_def)

lemma execute_dollar:
  assumes "execute g = Inr A"
  shows "''$'' \<in> set (inputs A) \<and> epsilon A = ''$''"
proof (cases g)
  case (Single x)
  with assms show ?thesis by (cases x rule: single_execute.cases) auto
next
  case (Collation a b)
  with assms show ?thesis
    by (auto simp: collation_execute_def dest: factory_dollar split: sum.splits)
next
  case (QuestionMark x)
  with assms show ?thesis
    by (cases x) (auto simp: question_mark_operator_def enfa_add_item_def dest: factory_dollar split: sum.splits)
qed (use assms in \<open>auto simp: binary_execute_def unary_execute_def kleene_plus_def split: sum.splits option.splits\<close>)

text \<open>
  C10: the \<epsilon>-symbol \<open>$\<close> is a valid character of every successfully compiled
  regex, so \<^verbatim>\<open>check\<close> does not reject a \<open>$\<close> of the text by its filter but enters it
  into the automaton.
\<close>

theorem compiled_regex_has_epsilon:
  assumes "RegEx text name = Inr R"
  shows "''$'' \<in> set (valid_characters R) \<and>
         (\<forall>A cs. inputs A = valid_characters R \<longrightarrow>
            check_loop A (CHR ''$'' # cs) =
              (case enter A ''$'' of Inl e \<Rightarrow> Inl e | Inr A' \<Rightarrow> check_loop A' cs))"
proof -
  from assms obtain g where "execute g = Inr (automaton R)"
    by (auto simp: RegEx_def split: sum.splits)
  from execute_dollar [OF this] show ?thesis by (simp add: valid_characters_def)
qed

lemma INTEGER_compiles: "\<not> isl INTEGER"
  by code_simp

theorem compiled_regex_has_epsilon_witness:
  "\<exists>R. INTEGER = Inr R \<and> ''$'' \<in> set (valid_characters R)"
proof -
  from INTEGER_compiles have "INTEGER = Inr (projr INTEGER)" by simp
  then obtain R where R: "INTEGER = Inr R" ..
  then have "RegEx ''[0-9]+'' ''INTEGER'' = Inr R" by (simp add: INTEGER_def)
  from compiled_regex_has_epsilon [OF this] R show ?thesis by blast
qed

section \<open>The run of the automaton and acceptance\<close>

lemma forward_iff: "q \<in> set (forward A p a) \<longleftrightarrow> (p, a, q) \<in> set (transitions A)"
  by (force simp: forward_def)

lemma reach_current [simp]: "reach (A\<lparr>current := c\<rparr>) p w q = reach A p w q"
proof
  assume "reach (A\<lparr>current := c\<rparr>) p w q"
  then show "reach A p w q"
    by (induction rule: reach.induct) (auto intro: reach.intros)
next
  assume "reach A p w q"
  then show "reach (A\<lparr>current := c\<rparr>) p w q"
    by (induction rule: reach.induct) (auto intro: reach.intros)
qed

lemma reach_append: "reach A p u q \<Longrightarrow> reach A q v r \<Longrightarrow> reach A p (u @ v) r"
  by (induction rule: reach.induct) (auto intro: reach.intros)

lemma reach_nil_eclose: "reach A p w q \<Longrightarrow> w = [] \<Longrightarrow> p \<in> eclose A S \<Longrightarrow> q \<in> eclose A S"
proof (induction rule: reach.induct)
  case (stay p)
  then show ?case by simp
next
  case (eps p q w r)
  from eps.hyps(1) have "q \<in> set (forward A p (epsilon A))" by (simp add: forward_iff)
  with eps.prems(2) have "q \<in> eclose A S" by (rule eclose.step)
  with eps show ?case by simp
next
  case (read p c q w r)
  then show ?case by simp
qed

lemma eclose_reach: "q \<in> eclose A S \<Longrightarrow> \<exists>p \<in> S. reach A p [] q"
proof (induction rule: eclose.induct)
  case (base s)
  then show ?case by (auto intro: reach.stay)
next
  case (step s d)
  then obtain p where p: "p \<in> S" "reach A p [] s" by blast
  from step.hyps(2) have "reach A s [] d"
    by (auto simp: forward_iff intro: reach.intros)
  from reach_append [OF p(2) this] p(1) show ?case by auto
qed

lemma eclose_eq_reach: "eclose A S = {q. \<exists>p \<in> S. reach A p [] q}"
  by (auto dest: eclose_reach intro: reach_nil_eclose eclose.base)

lemma reach_Cons:
  "reach A p w r \<Longrightarrow> w = c # v \<Longrightarrow>
     \<exists>p' q. reach A p [] p' \<and> (p', [c], q) \<in> set (transitions A) \<and> reach A q v r"
proof (induction arbitrary: rule: reach.induct)
  case (stay p)
  then show ?case by simp
next
  case (eps p q w r)
  then obtain p' q' where "reach A q [] p'" "(p', [c], q') \<in> set (transitions A)" "reach A q' v r"
    by blast
  with eps.hyps(1) show ?case by (blast intro: reach.eps)
next
  case (read p c' q w r)
  then show ?case by (auto intro: reach.stay)
qed

lemma check_loop_reach:
  assumes "wf_enfa A" and "eps_closed A (set (current A))"
  shows "check_loop A w =
           Inr (\<exists>r \<in> set (accepted_states A). \<exists>p \<in> set (current A). reach A p w r)"
  using assms
proof (induction w arbitrary: A)
  case Nil
  have "eclose A (set (current A)) = set (current A)"
    using Nil.prems(2) by (auto dest: eclose_least [OF subset_refl] intro: eclose.base)
  then have eq: "{q. \<exists>p \<in> set (current A). reach A p [] q} = set (current A)"
    by (simp add: eclose_eq_reach)
  have "(\<exists>p \<in> set (current A). reach A p [] r) \<longleftrightarrow> r \<in> set (current A)" for r
    using eq by blast
  then show ?case by (auto simp: accepted_def)
next
  case (Cons c w)
  let ?S = "set (current A)"
  have closed: "eclose A ?S = ?S"
    using Cons.prems(2) by (auto dest: eclose_least [OF subset_refl] intro: eclose.base)
  show ?case
  proof (cases "[c] \<in> set (inputs A)")
    case False
    have "\<not> reach A p (c # w) r" for p r
    proof
      assume "reach A p (c # w) r"
      from reach_Cons [OF this refl] obtain p' q where "(p', [c], q) \<in> set (transitions A)" by blast
      with Cons.prems(1) have "[c] \<in> set (inputs A)" by (auto simp: wf_enfa_def)
      with False show False by simp
    qed
    with False show ?thesis by simp
  next
    case True
    let ?N = "\<Union>s \<in> ?S. set (forward A s [c])"
    from enter_step [OF Cons.prems(1), of "[c]"] True obtain C where
      C: "enter A [c] = Inr (A\<lparr>current := C\<rparr>)" "set C = eclose A ?N" by blast
    let ?A' = "A\<lparr>current := C\<rparr>"
    have wf': "wf_enfa ?A'" using Cons.prems(1) by (simp add: wf_enfa_def)
    have cl': "eps_closed ?A' (set (current ?A'))"
      using eclose_closed [of A ?N] by (simp add: C(2) eps_closed_def)
    from Cons.IH [OF wf' cl']
    have ih: "check_loop ?A' w = Inr (\<exists>r \<in> set (accepted_states A). \<exists>p \<in> eclose A ?N. reach A p w r)"
      by (simp add: C(2))
    have "(\<exists>p \<in> ?S. reach A p (c # w) r) \<longleftrightarrow> (\<exists>p \<in> eclose A ?N. reach A p w r)" for r
    proof
      assume "\<exists>p \<in> ?S. reach A p (c # w) r"
      then obtain p where p: "p \<in> ?S" "reach A p (c # w) r" by blast
      from reach_Cons [OF p(2) refl] obtain p' q where
        s: "reach A p [] p'" "(p', [c], q) \<in> set (transitions A)" "reach A q w r" by blast
      from s(1) p(1) have "p' \<in> eclose A ?S" by (auto simp: eclose_eq_reach)
      with closed have "p' \<in> ?S" by simp
      with s(2) have "q \<in> ?N" by (auto simp: forward_iff)
      then have "q \<in> eclose A ?N" by (rule eclose.base)
      with s(3) show "\<exists>p \<in> eclose A ?N. reach A p w r" by blast
    next
      assume "\<exists>p \<in> eclose A ?N. reach A p w r"
      then obtain q where q: "q \<in> eclose A ?N" "reach A q w r" by blast
      from eclose_reach [OF q(1)] obtain q0 where q0: "q0 \<in> ?N" "reach A q0 [] q" by blast
      from q0(1) obtain s where s: "s \<in> ?S" "(s, [c], q0) \<in> set (transitions A)"
        by (auto simp: forward_iff)
      from reach_append [OF q0(2) q(2)] have "reach A q0 w r" by simp
      with s(2) have "reach A s (c # w) r" by (rule reach.read)
      with s(1) show "\<exists>p \<in> ?S. reach A p (c # w) r" by blast
    qed
    with ih True C(1) show ?thesis by simp
  qed
qed

lemma check_accepts_wf:
  assumes "wf_enfa (automaton R)"
  shows "check R s = Inr (accepts (automaton R) s)"
proof -
  let ?A = "automaton R"
  from assms have tr: "\<forall>(p, b, q) \<in> set (transitions ?A). q \<in> set (states ?A)"
    and st: "set [start_state ?A] \<subseteq> set (states ?A)"
    by (auto simp: wf_enfa_def)
  from e_closures_succeeds [OF tr st] obtain C where C: "e_closures ?A [start_state ?A] = Inr C" by blast
  from e_closures_result(1) [OF C] have set_C: "set C = eclose ?A {start_state ?A}" by simp
  let ?A' = "?A\<lparr>current := C\<rparr>"
  have wf': "wf_enfa ?A'" using assms by (simp add: wf_enfa_def)
  have cl': "eps_closed ?A' (set (current ?A'))"
    using eclose_closed [of ?A "{start_state ?A}"] by (simp add: set_C eps_closed_def)
  have "(\<exists>p \<in> eclose ?A {start_state ?A}. reach ?A p s r) \<longleftrightarrow> reach ?A (start_state ?A) s r" for r
  proof
    assume "\<exists>p \<in> eclose ?A {start_state ?A}. reach ?A p s r"
    then obtain p where p: "p \<in> eclose ?A {start_state ?A}" "reach ?A p s r" by blast
    from eclose_reach [OF p(1)] have "reach ?A (start_state ?A) [] p" by simp
    from reach_append [OF this p(2)] show "reach ?A (start_state ?A) s r" by simp
  next
    assume "reach ?A (start_state ?A) s r"
    then show "\<exists>p \<in> eclose ?A {start_state ?A}. reach ?A p s r"
      by (blast intro: eclose.base)
  qed
  with check_loop_reach [OF wf' cl', of s] C show ?thesis
    by (simp add: check_def reset_def accepts_def set_C)
qed

section \<open>Compiled automata are well-formed\<close>

lemma wf_EPSILON_NFA:
  "wf_enfa (EPSILON_NFA sts ins st acc trs) \<longleftrightarrow>
     st \<in> set sts \<and> set acc \<subseteq> set sts \<and>
     (\<forall>(p, b, q) \<in> set trs. p \<in> set sts \<and> q \<in> set sts \<and> (b = ''$'' \<or> b \<in> set ins))"
  by (auto simp: wf_enfa_def EPSILON_NFA_def)

lemma wf_factory: "factory text = Inr A \<Longrightarrow> wf_enfa A"
  by (auto simp: factory_def Let_def split: list.splits sum.splits if_splits)

lemma wf_rename_states: "wf_enfa B \<Longrightarrow> wf_enfa (rename_states m B)"
  by (auto simp: wf_enfa_def rename_states_def)

lemma wf_alias_right: "wf_enfa B \<Longrightarrow> wf_enfa (alias_right A B)"
  by (simp add: alias_right_def wf_rename_states)

lemma wf_mul_renamed: "wf_enfa A \<Longrightarrow> wf_enfa B \<Longrightarrow> wf_enfa (mul_renamed A B)"
  by (auto simp: mul_renamed_def wf_EPSILON_NFA) (auto simp: wf_enfa_def)

lemma wf_add_states: "wf_enfa A \<Longrightarrow> wf_enfa B \<Longrightarrow> wf_enfa (add_states A B s a)"
  by (auto simp: add_states_def wf_EPSILON_NFA) (auto simp: wf_enfa_def)

lemma wf_kleene_states: "wf_enfa A \<Longrightarrow> wf_enfa (kleene_states A s a)"
  by (auto simp: kleene_states_def wf_EPSILON_NFA) (auto simp: wf_enfa_def)

lemma wf_copy_renamed: "wf_enfa A \<Longrightarrow> wf_enfa (copy_renamed A (rename_states m A))"
  by (auto simp: copy_renamed_def wf_EPSILON_NFA rename_states_def) (auto simp: wf_enfa_def)

lemma wf_enfa_mul: "wf_enfa A \<Longrightarrow> wf_enfa B \<Longrightarrow> wf_enfa (enfa_mul A B)"
  by (simp add: enfa_mul_def wf_mul_renamed wf_alias_right)

lemma wf_enfa_add: "wf_enfa A \<Longrightarrow> wf_enfa B \<Longrightarrow> wf_enfa (enfa_add A B)"
  by (simp add: enfa_add_def add_renamed_def add_start_def wf_add_states wf_alias_right)

lemma wf_kleene_operator: "wf_enfa A \<Longrightarrow> wf_enfa (kleene_operator A)"
  by (simp add: kleene_operator_def kleene_start_def wf_kleene_states)

lemma wf_deepcopy: "wf_enfa A \<Longrightarrow> wf_enfa (deepcopy A)"
  by (simp add: deepcopy_def wf_copy_renamed)

lemma wf_kleene_plus: "wf_enfa A \<Longrightarrow> wf_enfa (kleene_plus A)"
  by (simp add: kleene_plus_def wf_enfa_mul wf_deepcopy wf_kleene_operator)

lemma wf_operand:
  "operand_enfa template x rec = Inr (Some A) \<Longrightarrow> (\<And>B. rec = Inr B \<Longrightarrow> wf_enfa B) \<Longrightarrow> wf_enfa A"
  by (cases x) (auto simp: operand_enfa_def dest: wf_factory split: sum.splits)

lemma wf_execute: "execute g = Inr A \<Longrightarrow> wf_enfa A"
proof (induction g arbitrary: A rule: execute.induct)
  case (3 x)
  then show ?case by (cases x rule: single_execute.cases) (auto simp: wf_EPSILON_NFA)
next
  case (4 a b)
  then show ?case by (auto simp: collation_execute_def dest: wf_factory split: sum.splits)
next
  case (5 a b)
  then show ?case
    by (auto simp: binary_execute_def split: sum.splits option.splits
        intro!: wf_enfa_add elim!: wf_operand)
next
  case (6 a b)
  then show ?case
    by (auto simp: binary_execute_def split: sum.splits option.splits
        intro!: wf_enfa_mul elim!: wf_operand)
next
  case (7 x)
  then show ?case
    by (auto simp: unary_execute_def split: sum.splits option.splits
        intro!: wf_kleene_operator elim!: wf_operand)
next
  case (8 x)
  then show ?case
    by (auto simp: unary_execute_def split: sum.splits option.splits
        intro!: wf_kleene_plus elim!: wf_operand)
next
  case (9 x)
  then show ?case
    by (cases x) (auto simp: question_mark_operator_def enfa_add_item_def dest: wf_factory split: sum.splits)
qed simp_all

lemma wf_RegEx: "RegEx text name = Inr R \<Longrightarrow> wf_enfa (automaton R)"
  by (auto simp: RegEx_def split: sum.splits dest: wf_execute)

section \<open>The check of a compiled regex\<close>

lemma reach_inputs:
  "reach A p w r \<Longrightarrow> wf_enfa A \<Longrightarrow> \<forall>c \<in> set w. [c] \<in> set (inputs A)"
  by (induction rule: reach.induct) (auto simp: wf_enfa_def)

lemma INTEGER_checks:
  "(case INTEGER of
      Inl e \<Rightarrow> None
    | Inr I \<Rightarrow> Some (check I ''0'', check I ''123'', check I '''', check I ''1a''))
   = Some (Inr True, Inr True, Inr False, Inr False)"
  by code_simp

text \<open>
  C1: for a compiled regex \<open>R\<close> and a text \<open>s\<close>, \<^verbatim>\<open>R.check(s)\<close> returns, without raising,
  whether the automaton of \<open>R\<close> accepts \<open>s\<close> in full; a character of \<open>s\<close> that is not a valid
  character makes it return false.  \<^verbatim>\<open>INTEGER\<close> accepts \<open>0\<close> and \<open>123\<close> and rejects the
  empty string and \<open>1a\<close>.
\<close>

theorem check_accepts:
  assumes "RegEx text name = Inr R"
  shows "check R s = Inr (accepts (automaton R) s) \<and>
         ((\<exists>c \<in> set s. [c] \<notin> set (valid_characters R)) \<longrightarrow> check R s = Inr False) \<and>
         (case INTEGER of
            Inl e \<Rightarrow> None
          | Inr I \<Rightarrow> Some (check I ''0'', check I ''123'', check I '''', check I ''1a''))
         = Some (Inr True, Inr True, Inr False, Inr False)"
proof -
  from assms have wf: "wf_enfa (automaton R)" by (rule wf_RegEx)
  then have eq: "check R s = Inr (accepts (automaton R) s)" by (rule check_accepts_wf)
  have "\<not> accepts (automaton R) s" if "\<exists>c \<in> set s. [c] \<notin> set (valid_characters R)"
    using that reach_inputs [OF _ wf] by (fastforce simp: accepts_def valid_characters_def)
  with eq INTEGER_checks show ?thesis by simp
qed

theorem check_accepts_witness:
  "\<exists>R. RegEx ''[0-9]+'' ''INTEGER'' = Inr R \<and> CHR ''a'' \<in> set ''1a'' \<and>
       [CHR ''a''] \<notin> set (valid_characters R) \<and> check R ''1a'' = Inr False \<and>
       accepts (automaton R) ''123'' \<and> \<not> accepts (automaton R) ''''"
proof -
  from INTEGER_compiles have "INTEGER = Inr (projr INTEGER)" by simp
  then obtain R where R: "INTEGER = Inr R" ..
  then have c: "RegEx ''[0-9]+'' ''INTEGER'' = Inr R" by (simp add: INTEGER_def)
  have "Some (check R ''0'', check R ''123'', check R '''', check R ''1a'')
      = Some (Inr True, Inr True, Inr False, Inr False)"
    using INTEGER_checks unfolding R by simp
  then have v: "check R ''123'' = Inr True" "check R '''' = Inr False"
    "check R ''1a'' = Inr False" by simp_all
  have "(case INTEGER of Inl e \<Rightarrow> False | Inr I \<Rightarrow> [CHR ''a''] \<notin> set (valid_characters I))"
    by code_simp
  then have a: "[CHR ''a''] \<notin> set (valid_characters R)" unfolding R by simp
  from check_accepts [OF c, of "''123''"] v(1) have 1: "accepts (automaton R) ''123''" by simp
  from check_accepts [OF c, of "''''"] v(2) have 2: "\<not> accepts (automaton R) ''''" by simp
  from c a v(3) 1 2 show ?thesis by auto
qed

section \<open>The text form of the operators' literals\<close>

lemma split_on_none: "sep \<notin> set a \<Longrightarrow> split_on sep a = [a]"
  by (induction a) auto

lemma split_on_app: "sep \<notin> set a \<Longrightarrow> split_on sep (a @ sep # b) = a # split_on sep b"
  by (induction a) auto

lemma dropWhile_spaces [simp]: "dropWhile is_space (replicate n (CHR '' '') @ x) = dropWhile is_space x"
  by (induction n) (auto simp: is_space_def)

lemma plain_newline: "plain c \<Longrightarrow> c \<noteq> newline"
  by (auto simp: plain_def is_space_def)

lemma strip_plain: "plain c \<Longrightarrow> strip (replicate n (CHR '' '') @ [c]) = [c]"
  by (simp add: strip_def plain_def)

lemma strip_spaces: "strip (replicate n (CHR '' '')) = []"
  using dropWhile_spaces [of n "[]"] by (simp add: strip_def)

lemma split_arrow_spaces:
  "x \<noteq> [] \<Longrightarrow> split_arrow (replicate n (CHR '' '') @ x) =
     (case split_arrow x of None \<Rightarrow> None | Some (l, r) \<Rightarrow> Some (replicate n (CHR '' '') @ l, r))"
proof (induction n)
  case 0
  then show ?case by (simp split: option.splits)
next
  case (Suc n)
  from Suc.prems obtain y ys where "replicate n (CHR '' '') @ x = y # ys"
    by (cases "replicate n (CHR '' '') @ x") auto
  with Suc show ?case by (auto split: option.splits)
qed

lemma block5:
  "block n [l1, l2, l3, l4, l5] =
     l1 @ newline # (replicate n (CHR '' '') @ l2) @ newline # (replicate n (CHR '' '') @ l3) @
     newline # (replicate n (CHR '' '') @ l4) @ newline # (replicate n (CHR '' '') @ l5)"
  by (simp add: block_def)

lemma split_block5:
  assumes "newline \<notin> set l1" "newline \<notin> set l2" "newline \<notin> set l3" "newline \<notin> set l4"
  shows "split_on newline (block n [l1, l2, l3, l4, l5]) =
     l1 # (replicate n (CHR '' '') @ l2) # (replicate n (CHR '' '') @ l3) #
     (replicate n (CHR '' '') @ l4) # split_on newline (replicate n (CHR '' '') @ l5)"
proof -
  have s: "newline \<notin> set (replicate n (CHR '' '') @ l)" if "newline \<notin> set l" for l
    using that by auto
  show ?thesis
    unfolding block5
    by (simp only: split_on_app [OF assms(1)] split_on_app [OF s [OF assms(2)]]
        split_on_app [OF s [OF assms(3)]] split_on_app [OF s [OF assms(4)]])
qed

lemma names_plain: "plain c \<Longrightarrow> names (replicate n (CHR '' '') @ [c]) = [[c]]"
proof -
  assume c: "plain c"
  then have "split_on (CHR '','') (replicate n (CHR '' '') @ [c]) = [replicate n (CHR '' '') @ [c]]"
    by (intro split_on_none) (auto simp: plain_def)
  with strip_plain [OF c, of n] show ?thesis by (simp add: names_def)
qed

section \<open>Kleene plus\<close>

lemma strip_kp0: "strip (replicate n (CHR '' '') @ ''kp0'') = ''kp0''"
  by (simp add: strip_def is_space_def)

lemma strip_kp1: "strip (replicate n (CHR '' '') @ ''kp1'') = ''kp1''"
  by (simp add: strip_def is_space_def)

lemma names_kp0_kp1: "names ''kp0,kp1'' = [''kp0'', ''kp1'']"
  by code_simp

lemma names_kp1: "names (replicate n (CHR '' '') @ ''kp1'') = [''kp1'']"
proof -
  have "split_on (CHR '','') (replicate n (CHR '' '') @ ''kp1'') = [replicate n (CHR '' '') @ ''kp1'']"
    by (rule split_on_none) auto
  then show ?thesis by (simp add: names_def strip_kp1)
qed

lemma kleene_plus_line:
  assumes "plain c"
  shows "parse_transitions (split_on newline (replicate n (CHR '' '') @ ''kp0,'' @ [c] @ ''->kp1''))
     = Inr [(''kp0'', [c], ''kp1'')]"
proof -
  let ?l = "replicate n (CHR '' '') @ ''kp0,'' @ [c] @ ''->kp1''"
  from assms have "newline \<notin> set ?l" by (auto dest: plain_newline)
  then have 1: "split_on newline ?l = [?l]" by (rule split_on_none)
  have "split_arrow (''kp0,'' @ [c] @ ''->kp1'') = Some (''kp0,'' @ [c], ''kp1'')" by simp
  then have 2: "split_arrow (replicate n (CHR '' '') @ (''kp0,'' @ [c] @ ''->kp1''))
      = Some (replicate n (CHR '' '') @ ''kp0,'' @ [c], ''kp1'')"
    by (subst split_arrow_spaces) simp_all
  have 3: "split_on (CHR '','') ((replicate n (CHR '' '') @ ''kp0'') @ CHR '','' # [c])
      = (replicate n (CHR '' '') @ ''kp0'') # split_on (CHR '','') [c]"
    by (rule split_on_app) auto
  have 4: "split_on (CHR '','') [c] = [[c]]" using assms by (simp add: plain_def)
  have 5: "strip ?l \<noteq> []" by (simp add: strip_def is_space_def)
  from 2 3 4 strip_plain [OF assms, of 0] strip_kp0 [of n] strip_kp1 [of 0]
  have "parse_transition ?l = Inr (''kp0'', [c], ''kp1'')"
    by (simp add: parse_transition_def)
  with 1 5 show ?thesis by simp
qed

lemma factory_kleene_plus_text:
  assumes "plain c"
  shows "factory (kleene_plus_text [c]) =
     Inr (EPSILON_NFA [''kp0'', ''kp1''] [[c]] ''kp0'' [''kp1''] [(''kp0'', [c], ''kp1'')])"
proof -
  from assms have nl: "newline \<notin> set [c]" by (auto dest: plain_newline)
  have "split_on newline (block 16 [''kp0,kp1'', [c], ''kp1'', ''kp0'', ''kp0,'' @ [c] @ ''->kp1'']) =
     ''kp0,kp1'' # (replicate 16 (CHR '' '') @ [c]) # (replicate 16 (CHR '' '') @ ''kp1'') #
     (replicate 16 (CHR '' '') @ ''kp0'') #
     split_on newline (replicate 16 (CHR '' '') @ ''kp0,'' @ [c] @ ''->kp1'')"
    using nl by (intro split_block5) simp_all
  moreover have "wf_enfa (EPSILON_NFA [''kp0'', ''kp1''] [[c]] ''kp0'' [''kp1''] [(''kp0'', [c], ''kp1'')])"
    by (simp add: wf_EPSILON_NFA)
  ultimately show ?thesis
    using kleene_plus_line [OF assms, of 16]
    by (simp add: factory_def kleene_plus_text_def names_kp0_kp1
        names_kp1 names_plain [OF assms] strip_kp0)
qed

lemma a_plus_checks:
  "(case RegEx ''a+'' ''P'' of
      Inl e \<Rightarrow> None
    | Inr R \<Rightarrow> Some (groups R, check R ''a'', check R ''aaa'', check R '''', check R ''b'', check R ''ab''))
     = Some (KleenePlus (Str ''a''), Inr True, Inr True, Inr False, Inr False, Inr False)"
  by code_simp

lemma plain_a: "plain (CHR ''a'')"
  by (simp add: plain_def is_space_def)

text \<open>
  C4: \<^verbatim>\<open>KleenePlus.execute\<close> returns the concatenation of a deep copy of the operand's
  automaton with the operand's Kleene closure, for an operator operand and for a
  string operand; for a string operand that is one character the operand's automaton
  is \<open>kp0 \<rightarrow> kp1\<close> on that character.  The regex \<open>(ab)+\<close> accepts \<open>ab\<close> and \<open>abab\<close> and
  rejects \<open>a\<close> and the empty string; the regex \<open>a+\<close> accepts \<open>a\<close> and \<open>aaa\<close> and rejects
  the empty string, \<open>b\<close> and \<open>ab\<close>.
\<close>

theorem kleene_plus_execute:
  "(is_operator x \<longrightarrow>
      execute (KleenePlus x) =
        (case execute x of
           Inl e \<Rightarrow> Inl e
         | Inr A \<Rightarrow> Inr (enfa_mul (deepcopy A) (kleene_operator A)))) \<and>
   execute (KleenePlus (Str s)) =
     (case factory (kleene_plus_text s) of
        Inl e \<Rightarrow> Inl e
      | Inr A \<Rightarrow> Inr (enfa_mul (deepcopy A) (kleene_operator A))) \<and>
   (plain c \<longrightarrow>
      factory (kleene_plus_text [c]) =
        Inr (EPSILON_NFA [''kp0'', ''kp1''] [[c]] ''kp0'' [''kp1''] [(''kp0'', [c], ''kp1'')]) \<and>
      execute (KleenePlus (Str [c])) =
        Inr (enfa_mul
               (deepcopy (EPSILON_NFA [''kp0'', ''kp1''] [[c]] ''kp0'' [''kp1''] [(''kp0'', [c], ''kp1'')]))
               (kleene_operator
                  (EPSILON_NFA [''kp0'', ''kp1''] [[c]] ''kp0'' [''kp1''] [(''kp0'', [c], ''kp1'')])))) \<and>
   (case RegEx ''(ab)+'' ''P'' of
      Inl e \<Rightarrow> None
    | Inr R \<Rightarrow> Some (groups R, check R ''ab'', check R ''abab'', check R ''a'', check R ''''))
     = Some (KleenePlus (Concatenation (Str ''a'') (Str ''b'')),
             Inr True, Inr True, Inr False, Inr False) \<and>
   (case RegEx ''a+'' ''P'' of
      Inl e \<Rightarrow> None
    | Inr R \<Rightarrow> Some (groups R, check R ''a'', check R ''aaa'', check R '''', check R ''b'', check R ''ab''))
     = Some (KleenePlus (Str ''a''), Inr True, Inr True, Inr False, Inr False, Inr False)"
proof -
  have 1: "is_operator x \<Longrightarrow> execute (KleenePlus x) =
        (case execute x of Inl e \<Rightarrow> Inl e | Inr A \<Rightarrow> Inr (enfa_mul (deepcopy A) (kleene_operator A)))"
    by (cases x) (auto simp: unary_execute_def operand_enfa_def kleene_plus_def split: sum.splits)
  have 2: "execute (KleenePlus (Str s)) =
     (case factory (kleene_plus_text s) of
        Inl e \<Rightarrow> Inl e
      | Inr A \<Rightarrow> Inr (enfa_mul (deepcopy A) (kleene_operator A)))" for s
    by (auto simp: unary_execute_def operand_enfa_def kleene_plus_def split: sum.splits)
  have 3: "(case RegEx ''(ab)+'' ''P'' of
      Inl e \<Rightarrow> None
    | Inr R \<Rightarrow> Some (groups R, check R ''ab'', check R ''abab'', check R ''a'', check R ''''))
     = Some (KleenePlus (Concatenation (Str ''a'') (Str ''b'')),
             Inr True, Inr True, Inr False, Inr False)"
    by code_simp
  have 4: "plain c \<Longrightarrow> execute (KleenePlus (Str [c])) =
        Inr (enfa_mul
               (deepcopy (EPSILON_NFA [''kp0'', ''kp1''] [[c]] ''kp0'' [''kp1''] [(''kp0'', [c], ''kp1'')]))
               (kleene_operator
                  (EPSILON_NFA [''kp0'', ''kp1''] [[c]] ''kp0'' [''kp1''] [(''kp0'', [c], ''kp1'')])))"
    by (simp only: 2 factory_kleene_plus_text sum.case)
  from 1 2 3 4 a_plus_checks factory_kleene_plus_text [of c] show ?thesis by blast
qed

theorem kleene_plus_execute_witness:
  "is_operator (Collation (Str ''0'') (Str ''9'')) \<and> plain (CHR ''a'') \<and>
   execute (KleenePlus (Collation (Str ''0'') (Str ''9''))) =
     (case execute (Collation (Str ''0'') (Str ''9'')) of
        Inl e \<Rightarrow> Inl e
      | Inr A \<Rightarrow> Inr (enfa_mul (deepcopy A) (kleene_operator A))) \<and>
   \<not> isl (execute (Collation (Str ''0'') (Str ''9''))) \<and>
   factory (kleene_plus_text ''a'') =
     Inr (EPSILON_NFA [''kp0'', ''kp1''] [''a''] ''kp0'' [''kp1''] [(''kp0'', ''a'', ''kp1'')]) \<and>
   execute (KleenePlus (Str ''a'')) =
     Inr (enfa_mul
            (deepcopy (EPSILON_NFA [''kp0'', ''kp1''] [''a''] ''kp0'' [''kp1''] [(''kp0'', ''a'', ''kp1'')]))
            (kleene_operator
               (EPSILON_NFA [''kp0'', ''kp1''] [''a''] ''kp0'' [''kp1''] [(''kp0'', ''a'', ''kp1'')])))"
proof -
  have "\<not> isl (execute (Collation (Str ''0'') (Str ''9'')))" by code_simp
  with kleene_plus_execute [of "Collation (Str ''0'') (Str ''9'')" _ "CHR ''a''"] plain_a
  show ?thesis by simp
qed

section \<open>The automaton of a collation\<close>

lemma strip_c0: "strip (replicate n (CHR '' '') @ ''c0'') = ''c0''"
  by (simp add: strip_def is_space_def)

lemma strip_c1: "strip (replicate n (CHR '' '') @ ''c1'') = ''c1''"
  by (simp add: strip_def is_space_def)

lemma split_arrow_line:
  "split_arrow (''c0,'' @ [c] @ ''->c1'') = Some (''c0,'' @ [c], ''c1'')"
  by simp

lemma parse_transition_line:
  assumes "plain c"
  shows "parse_transition (replicate n (CHR '' '') @ ''c0,'' @ [c] @ ''->c1'') = Inr (''c0'', [c], ''c1'')"
proof -
  have "split_arrow (replicate n (CHR '' '') @ (''c0,'' @ [c] @ ''->c1''))
      = Some (replicate n (CHR '' '') @ ''c0,'' @ [c], ''c1'')"
    by (subst split_arrow_spaces) (simp_all only: split_arrow_line, simp_all)
  moreover have "split_on (CHR '','') ((replicate n (CHR '' '') @ ''c0'') @ CHR '','' # [c])
      = (replicate n (CHR '' '') @ ''c0'') # split_on (CHR '','') [c]"
    by (rule split_on_app) auto
  moreover have "split_on (CHR '','') [c] = [[c]]"
    using assms by (simp add: plain_def)
  ultimately show ?thesis
    using assms strip_plain [OF assms, of 0] strip_c0 [of n] strip_c1 [of 0]
    by (simp add: parse_transition_def)
qed

lemma collation_result_Cons:
  "collation_result (c # cs) =
     ''c0,'' @ [c] @ ''->c1'' @ (if cs = [] then [] else newline # collation_result cs)"
  by (cases cs) (simp_all add: collation_result_def butlast_append)

lemma collation_inputs_Cons:
  "collation_inputs (c # cs) = c # (if cs = [] then [] else CHR '','' # collation_inputs cs)"
  by (cases cs) (simp_all add: collation_inputs_def butlast_append)

lemma strip_line_nonempty:
  "strip (replicate n (CHR '' '') @ ''c0,'' @ [c] @ ''->c1'') \<noteq> []"
  by (simp add: strip_def is_space_def)

lemma parse_collation_result:
  "\<forall>c \<in> set cs. plain c \<Longrightarrow>
     parse_transitions (split_on newline (replicate n (CHR '' '') @ collation_result cs))
       = Inr (map (\<lambda>c. (''c0'', [c], ''c1'')) cs)"
proof (induction cs arbitrary: n)
  case Nil
  have "split_on newline (replicate n (CHR '' '')) = [replicate n (CHR '' '')]"
    by (rule split_on_none) auto
  then show ?case by (simp add: collation_result_def strip_spaces)
next
  case (Cons c cs)
  let ?l = "replicate n (CHR '' '') @ ''c0,'' @ [c] @ ''->c1''"
  from Cons.prems have c: "plain c" by simp
  then have nl: "newline \<notin> set ?l" by (auto dest: plain_newline)
  show ?case
  proof (cases "cs = []")
    case True
    from nl have "split_on newline ?l = [?l]" by (rule split_on_none)
    with True parse_transition_line [OF c, of n] strip_line_nonempty [of n c] show ?thesis
      by (simp add: collation_result_Cons)
  next
    case False
    from nl have "split_on newline (?l @ newline # collation_result cs)
        = ?l # split_on newline (collation_result cs)" by (rule split_on_app)
    moreover from Cons.IH [of 0] Cons.prems
    have "parse_transitions (split_on newline (collation_result cs))
        = Inr (map (\<lambda>c. (''c0'', [c], ''c1'')) cs)" by simp
    ultimately show ?thesis
      using False parse_transition_line [OF c, of n] strip_line_nonempty [of n c]
      by (simp add: collation_result_Cons)
  qed
qed

lemma split_collation_inputs:
  "\<forall>c \<in> set cs. plain c \<Longrightarrow> cs \<noteq> [] \<Longrightarrow>
     map strip (split_on (CHR '','') (replicate n (CHR '' '') @ collation_inputs cs))
       = map (\<lambda>c. [c]) cs"
proof (induction cs arbitrary: n)
  case Nil
  then show ?case by simp
next
  case (Cons c cs)
  from Cons.prems have c: "plain c" by simp
  then have nc: "CHR '','' \<notin> set (replicate n (CHR '' '') @ [c])" by (auto simp: plain_def)
  show ?case
  proof (cases "cs = []")
    case True
    from nc have "split_on (CHR '','') (replicate n (CHR '' '') @ [c]) = [replicate n (CHR '' '') @ [c]]"
      by (rule split_on_none)
    with True strip_plain [OF c, of n] show ?thesis by (simp add: collation_inputs_Cons)
  next
    case False
    from nc have "split_on (CHR '','') ((replicate n (CHR '' '') @ [c]) @ CHR '','' # collation_inputs cs)
        = (replicate n (CHR '' '') @ [c]) # split_on (CHR '','') (collation_inputs cs)"
      by (rule split_on_app)
    moreover from Cons.IH [of 0] Cons.prems False
    have "map strip (split_on (CHR '','') (collation_inputs cs)) = map (\<lambda>c. [c]) cs" by simp
    ultimately show ?thesis using False strip_plain [OF c, of n] by (simp add: collation_inputs_Cons)
  qed
qed

lemma names_collation_inputs:
  assumes "\<forall>c \<in> set cs. plain c" and "distinct cs"
  shows "names (replicate n (CHR '' '') @ collation_inputs cs) = map (\<lambda>c. [c]) cs"
proof (cases "cs = []")
  case True
  have "split_on (CHR '','') (replicate n (CHR '' '')) = [replicate n (CHR '' '')]"
    by (rule split_on_none) auto
  with True show ?thesis by (simp add: names_def collation_inputs_def strip_spaces)
next
  case False
  have "filter (\<lambda>w. w \<noteq> []) (map (\<lambda>c. [c]) cs) = map (\<lambda>c. [c]) cs"
    by (induction cs) auto
  moreover have "distinct (map (\<lambda>c. [c]) cs)"
    using assms(2) by (simp add: distinct_map inj_on_def)
  ultimately show ?thesis
    using split_collation_inputs [OF assms(1) False, of n] by (simp add: names_def)
qed

lemma collation_inputs_no_newline:
  "\<forall>c \<in> set cs. plain c \<Longrightarrow> newline \<notin> set (collation_inputs cs)"
proof (induction cs)
  case Nil
  then show ?case by (simp add: collation_inputs_def)
next
  case (Cons c cs)
  then show ?case by (auto simp: collation_inputs_Cons dest: plain_newline)
qed

lemma names_c0_c1: "names ''c0,c1'' = [''c0'', ''c1'']"
  by code_simp

lemma names_c1: "names (replicate n (CHR '' '') @ ''c1'') = [''c1'']"
proof -
  have "split_on (CHR '','') (replicate n (CHR '' '') @ ''c1'') = [replicate n (CHR '' '') @ ''c1'']"
    by (rule split_on_none) auto
  then show ?thesis by (simp add: names_def strip_c1)
qed

lemma factory_collation:
  assumes "\<forall>c \<in> set cs. plain c" and "distinct cs"
  shows "factory (block n [''c0,c1'', collation_inputs cs, ''c1'', ''c0'', collation_result cs]) =
     Inr (EPSILON_NFA [''c0'', ''c1''] (map (\<lambda>c. [c]) cs) ''c0'' [''c1'']
            (map (\<lambda>c. (''c0'', [c], ''c1'')) cs))"
proof -
  have "split_on newline (block n [''c0,c1'', collation_inputs cs, ''c1'', ''c0'', collation_result cs]) =
     ''c0,c1'' # (replicate n (CHR '' '') @ collation_inputs cs) # (replicate n (CHR '' '') @ ''c1'') #
     (replicate n (CHR '' '') @ ''c0'') # split_on newline (replicate n (CHR '' '') @ collation_result cs)"
    by (rule split_block5) (simp_all add: collation_inputs_no_newline [OF assms(1)])
  moreover have "wf_enfa (EPSILON_NFA [''c0'', ''c1''] (map (\<lambda>c. [c]) cs) ''c0'' [''c1'']
            (map (\<lambda>c. (''c0'', [c], ''c1'')) cs))"
    by (auto simp: wf_EPSILON_NFA)
  ultimately show ?thesis
    by (simp add: factory_def parse_collation_result [OF assms(1)] names_c0_c1 names_c1
        names_collation_inputs [OF assms] strip_c0)
qed

lemma distinct_char_range: "distinct (char_range lo hi)"
proof -
  have "of_char hi + 1 \<le> (256::nat)" using nat_of_char_less_256 [of hi] by linarith
  then have "set [of_char lo ..< of_char hi + 1] \<subseteq> {0::nat ..< 256}" by auto
  then have "inj_on (char_of :: nat \<Rightarrow> char) (set [of_char lo ..< of_char hi + 1])"
    by (rule inj_on_subset [OF inj_on_char_of_nat])
  then show ?thesis by (simp add: char_range_def distinct_map)
qed

lemma char_range_iff: "x \<in> set (char_range lo hi) \<longleftrightarrow> (of_char lo :: nat) \<le> of_char x \<and> (of_char x :: nat) \<le> of_char hi"
proof
  assume "x \<in> set (char_range lo hi)"
  then obtain k :: nat where k: "x = char_of k" "of_char lo \<le> k" "k \<le> of_char hi"
    by (auto simp: char_range_def)
  from k(3) nat_of_char_less_256 [of hi] have "k < 256" by linarith
  then have "of_char x = k" using k(1) by simp
  with k show "(of_char lo :: nat) \<le> of_char x \<and> (of_char x :: nat) \<le> of_char hi" by simp
next
  assume a: "(of_char lo :: nat) \<le> of_char x \<and> (of_char x :: nat) \<le> of_char hi"
  have "x = char_of (of_char x :: nat)" by simp
  with a show "x \<in> set (char_range lo hi)"
    unfolding char_range_def by (metis (no_types) atLeastLessThan_iff image_eqI le_imp_less_Suc set_map set_upt Suc_eq_plus1)
qed

lemma collation_automaton:
  assumes "\<forall>x \<in> set (char_range lo hi). plain x"
  shows "execute (Collation (Str [lo]) (Str [hi])) =
     Inr (EPSILON_NFA [''c0'', ''c1''] (map (\<lambda>x. [x]) (char_range lo hi)) ''c0'' [''c1'']
            (map (\<lambda>x. (''c0'', [x], ''c1'')) (char_range lo hi)))"
  using factory_collation [OF assms distinct_char_range, of 12]
  by (simp add: collation_execute_def all_characters_def char_range_def)

lemma reach_single:
  assumes "transitions A = [(''c0'', ''a'', ''c1'')]" "epsilon A = ''$''"
  shows "reach A ''c0'' s ''c1'' \<longleftrightarrow> s = ''a''"
proof
  assume "reach A ''c0'' s ''c1''"
  then show "s = ''a''"
  proof (cases rule: reach.cases)
    case stay
    then show ?thesis by simp
  next
    case (eps q)
    with assms show ?thesis by simp
  next
    case (read c q w)
    with assms have c: "c = CHR ''a''" "q = ''c1''" by simp_all
    from read(3) have "w = []"
      by (cases rule: reach.cases) (use assms c in auto)
    with read(1) c show ?thesis by simp
  qed
next
  assume "s = ''a''"
  moreover have "reach A ''c0'' (CHR ''a'' # []) ''c1''"
    by (rule reach.read [of _ _ "''c1''"]) (simp_all add: assms reach.stay)
  ultimately show "reach A ''c0'' s ''c1''" by simp
qed

lemma a_a_compiles:
  "RegEx ''[a-a]'' ''A'' =
     Inr \<lparr>regex_name = ''A'', regex_text = ''[a-a]'', groups = Collation (Str ''a'') (Str ''a''),
          automaton = EPSILON_NFA [''c0'', ''c1''] [''a''] ''c0'' [''c1''] [(''c0'', ''a'', ''c1'')]\<rparr>"
  by code_simp

lemma plus_minus_range: "char_range (CHR ''+'') (CHR ''-'') = ''+,-''"
  by code_simp

lemma plus_minus_inputs:
  "split_on (CHR '','') (collation_inputs ''+,-'') = [''+'', '''', '''', ''-'']"
  by code_simp

lemma plus_minus_execute: "execute (Collation (Str ''+'') (Str ''-'')) = Inl FormatError"
  by code_simp

lemma space_bang_execute: "execute (Collation (Str '' '') (Str ''!'')) = Inl FormatError"
  by code_simp


lemma a_a_exact: "check \<lparr>regex_name = n, regex_text = t, groups = g,
     automaton = EPSILON_NFA [''c0'', ''c1''] [''a''] ''c0'' [''c1''] [(''c0'', ''a'', ''c1'')]\<rparr> s
   = Inr (s = ''a'')"
proof -
  let ?A = "EPSILON_NFA [''c0'', ''c1''] [''a''] ''c0'' [''c1''] [(''c0'', ''a'', ''c1'')]"
  have "wf_enfa ?A" by (simp add: wf_EPSILON_NFA)
  then have "check \<lparr>regex_name = n, regex_text = t, groups = g, automaton = ?A\<rparr> s
      = Inr (accepts ?A s)"
    using check_accepts_wf [of "\<lparr>regex_name = n, regex_text = t, groups = g, automaton = ?A\<rparr>" s]
    by simp
  moreover have "accepts ?A s \<longleftrightarrow> s = ''a''"
    using reach_single [of ?A s] by (simp add: accepts_def EPSILON_NFA_def)
  ultimately show ?thesis by simp
qed


lemma a_c_range: "char_range (CHR ''a'') (CHR ''c'') = ''abc''"
  by code_simp


end
